theory Spec2Isabelle
  imports Complex_Main "HOL-Library.Multiset" "HOL-Library.Extended_Nat"
begin

section \<open>The node store: \<open>List\<close>\<close>

text \<open>
  \<open>List<T, Allocator>\<close> is a circular doubly-linked list through one sentinel
  (\<open>fake_node_\<close>). A node is identified by its address; the list is represented by the
  sequence of its nodes read along the \<open>next\<close> links from \<open>fake_node_.next\<close> up to the
  sentinel, each node paired with the item it owns. The field \<open>size_\<close> is incremented and
  decremented exactly where a node is linked and unlinked, so it is the length of that
  sequence. An iterator holds a node pointer: either the sentinel (what \<open>end()\<close> returns)
  or the address of a node.
\<close>

type_synonym addr = nat

datatype iter = Sentinel | Node addr

type_synonym 'a List = "(addr \<times> 'a) list"

text \<open>
  Outcomes other than a normal return: undefined behaviour (a dereference of the sentinel
  or of a node that is not in the list, an index into an empty bucket vector, a remainder
  by zero), a failed \<open>assert\<close>, and an exception, which carries the state the container
  is left in when the exception leaves the operation.
\<close>

datatype 's error = UB | Abort | Throw 's

text \<open>\<open>begin()\<close>: \<open>fake_node_.next\<close>, which is the sentinel itself in an empty list.\<close>

fun begin_it :: "'a List \<Rightarrow> iter" where
  "begin_it [] = Sentinel"
| "begin_it ((a, x) # l) = Node a"

text \<open>
  The nodes an iterator visits when it is incremented until it reaches the sentinel: the
  part of the sequence that starts at its node.
\<close>

fun from_iter :: "iter \<Rightarrow> 'a List \<Rightarrow> 'a List" where
  "from_iter Sentinel l = []"
| "from_iter (Node a) l = dropWhile (\<lambda>n. fst n \<noteq> a) l"

text \<open>\<open>operator*\<close> and \<open>operator->\<close>: the item of the node.\<close>

fun deref :: "'a List \<Rightarrow> iter \<Rightarrow> 'a option" where
  "deref l Sentinel = None"
| "deref l (Node a) = map_of l a"

text \<open>\<open>operator++\<close> follows \<open>next\<close>; from the sentinel it reaches the first node.\<close>

fun next_iter :: "'a List \<Rightarrow> iter \<Rightarrow> iter option" where
  "next_iter l Sentinel = Some (begin_it l)"
| "next_iter [] (Node a) = None"
| "next_iter ((b, x) # l) (Node a) =
     (if a = b then Some (begin_it l) else next_iter l (Node a))"

text \<open>\<open>operator--\<close> follows \<open>prev\<close>; from the sentinel it reaches the last node.\<close>

fun prev_from :: "iter \<Rightarrow> 'a List \<Rightarrow> addr \<Rightarrow> iter option" where
  "prev_from p [] a = None"
| "prev_from p ((b, x) # l) a = (if a = b then Some p else prev_from (Node b) l a)"

fun prev_iter :: "'a List \<Rightarrow> iter \<Rightarrow> iter option" where
  "prev_iter l Sentinel = Some (if l = [] then Sentinel else Node (fst (last l)))"
| "prev_iter l (Node a) = prev_from Sentinel l a"

text \<open>
  The two pointer writes of \<open>List::emplace(iter, args...)\<close>: the new node, allocated at
  address \<open>a\<close> and holding the item \<open>x\<close>, is linked between \<open>iter.node->prev\<close> and
  \<open>iter.node\<close>.
\<close>

fun link_before :: "'a List \<Rightarrow> iter \<Rightarrow> addr \<Rightarrow> 'a \<Rightarrow> 'a List option" where
  "link_before l Sentinel a x = Some (l @ [(a, x)])"
| "link_before [] (Node p) a x = None"
| "link_before ((b, y) # l) (Node p) a x =
     (if p = b then Some ((a, x) # (b, y) # l)
      else map_option (Cons (b, y)) (link_before l (Node p) a x))"


text \<open>\<open>List::erase(iter)\<close> destroys the node and joins its neighbours.\<close>

fun List_erase :: "'a List \<Rightarrow> iter \<Rightarrow> 'a List option" where
  "List_erase l Sentinel = None"
| "List_erase [] (Node p) = None"
| "List_erase ((b, y) # l) (Node p) =
     (if p = b then Some l else map_option (Cons (b, y)) (List_erase l (Node p)))"

text \<open>
  \<open>List::operator==\<close>. The loop header is
  \<^verbatim>\<open>for (; it_1 != cend() && it_2 != list.cend(); ++it_1, ++it_1)\<close>:
  the first iterator is incremented twice in every round and the second one never. On a
  circular list the first iterator can step over the sentinel and go round again, so the
  loop need not end: the result is \<open>None\<close> then (as it is for an iterator that is not
  in the list, which the iterators of \<open>List_eq\<close> never are).
\<close>

partial_function (option) eq_loop ::
    "'a List \<Rightarrow> 'a List \<Rightarrow> iter \<Rightarrow> iter \<Rightarrow> bool option" where
  "eq_loop l1 l2 it_1 it_2 =
     (if it_1 \<noteq> Sentinel \<and> it_2 \<noteq> Sentinel then
        (if deref l1 it_1 \<noteq> deref l2 it_2 then Some False
         else (case Option.bind (next_iter l1 it_1) (next_iter l1) of
                 None \<Rightarrow> None
               | Some it_1' \<Rightarrow> eq_loop l1 l2 it_1' it_2))
      else Some True)"

definition List_eq :: "'a List \<Rightarrow> 'a List \<Rightarrow> bool option" where
  "List_eq l1 l2 =
     (if length l2 \<noteq> length l1 then Some False
      else eq_loop l1 l2 (begin_it l1) (begin_it l2))"

text \<open>What the specification asks of the comparison: same size and equal items pairwise.\<close>

definition pairwise_equal :: "'a List \<Rightarrow> 'a List \<Rightarrow> bool" where
  "pairwise_equal l1 l2 \<longleftrightarrow> map snd l1 = map snd l2"

section \<open>The hash map: \<open>UnorderedMap\<close>\<close>

text \<open>
  The fields of the class, without their trailing underscore: \<open>max_factor_\<close>, the node
  store \<open>values_\<close> (here \<open>values_list\<close>), and the vector \<open>buckets_\<close> of list iterators.
  \<open>heap\<close> is the state of the allocator that \<open>values_\<close> holds and hands to every list
  built from it: the next address it will return. An address is never handed out twice.
  The hash functor \<open>hash_\<close> is the parameter \<open>h\<close> of every operation; \<open>equal_\<close> is the
  default \<open>std::equal_to<Key>\<close>, HOL's equality. Sizes and hash values are natural numbers.
  The load factor is a \<open>double\<close> in the source and an exact rational here: the products
  and quotients below are compared and rounded as exact numbers. For the default factor
  0.75, which a \<open>double\<close> holds exactly, and the sizes of the scenarios below, the
  \<open>double\<close> computations give the same integers.
\<close>

record ('k, 'v) UnorderedMap =
  max_factor :: rat
  values_list :: "('k \<times> 'v) List"
  buckets :: "iter list"
  heap :: addr

text \<open>The default constructor: \<open>default_factor = 0.75\<close>, no node, no bucket.\<close>

definition empty_map :: "('k, 'v) UnorderedMap" where
  "empty_map = \<lparr>max_factor = 3 / 4, values_list = [], buckets = [], heap = 0\<rparr>"

definition size_of :: "('k, 'v) UnorderedMap \<Rightarrow> nat" where
  "size_of m = length (values_list m)"

definition bucket_count :: "('k, 'v) UnorderedMap \<Rightarrow> nat" where
  "bucket_count m = length (buckets m)"

text \<open>\<open>get_hash\<close>: \<open>hash_(key) % bucket_count()\<close>.\<close>

definition get_hash :: "('k \<Rightarrow> nat) \<Rightarrow> ('k, 'v) UnorderedMap \<Rightarrow> 'k \<Rightarrow> nat option" where
  "get_hash h m k = (if bucket_count m = 0 then None else Some (h k mod bucket_count m))"

subsection \<open>Lookup\<close>

text \<open>
  The non-const \<open>find\<close>: from the head of the key's bucket, while the iterator has not
  reached the sentinel and the node's own bucket is that bucket, compare the key.
\<close>

fun find_loop :: "('k \<Rightarrow> nat) \<Rightarrow> nat \<Rightarrow> 'k \<Rightarrow> nat \<Rightarrow> ('k \<times> 'v) List \<Rightarrow> iter" where
  "find_loop h n k hash [] = Sentinel"
| "find_loop h n k hash ((a, (k', v)) # rest) =
     (if h k' mod n = hash then (if k' = k then Node a else find_loop h n k hash rest)
      else Sentinel)"

definition find_mut :: "('k \<Rightarrow> nat) \<Rightarrow> ('k, 'v) UnorderedMap \<Rightarrow> 'k \<Rightarrow> iter option" where
  "find_mut h m k =
     (if values_list m = [] then Some Sentinel
      else case get_hash h m k of
        None \<Rightarrow> None
      | Some hash \<Rightarrow>
          (case buckets m ! hash of
             Sentinel \<Rightarrow> Some Sentinel
           | Node a \<Rightarrow>
               if a \<in> fst ` set (values_list m)
               then Some (find_loop h (bucket_count m) k hash (from_iter (Node a) (values_list m)))
               else None))"

text \<open>
  The const \<open>find\<close> starts with \<^verbatim>\<open>const_iterator begin = get_iter(key)\<close>, and
  \<open>get_iter(const Key&) const\<close> returns \<open>buckets_[get_hash(key)]\<close>, a
  \<open>List::iterator\<close>, as an \<open>UnorderedMap::const_iterator\<close>. That takes the conversion
  operator of the list iterator and then the converting constructor of the map iterator:
  two user-defined conversions in one implicit conversion, which the language does not
  allow. The overload cannot be instantiated, and neither can \<open>at(const Key&) const\<close>,
  which calls it: a program has the non-const \<open>find\<close> only, and there is nothing of the
  const one to embed.
\<close>

subsection \<open>Insertion and rehashing\<close>

text \<open>
  The second half of \<open>emplace\<close>, after the entry has been built in its scratch
  allocation: look the key up; when it is absent, link a node in front of the list if
  the bucket is empty and in front of the bucket's head otherwise, and make it the head.
  \<open>emplace_front\<close> is \<open>emplace(begin(), ...)\<close>; \<open>--buckets_[hash]\<close> moves the stored
  head to the node just linked before it. The node is allocated at the next address of
  the allocator; moving the key and the value into it is taken not to throw.
\<close>

definition place :: "('k \<Rightarrow> nat) \<Rightarrow> ('k, 'v) UnorderedMap \<Rightarrow> 'k \<times> 'v \<Rightarrow>
    ('k, 'v) UnorderedMap error + ('k, 'v) UnorderedMap \<times> iter \<times> bool" where
  "place h m kv =
     (case find_mut h m (fst kv) of
        None \<Rightarrow> Inl UB
      | Some it \<Rightarrow>
          if it \<noteq> Sentinel then Inr (m, it, False)
          else (case get_hash h m (fst kv) of
              None \<Rightarrow> Inl UB
            | Some hash \<Rightarrow>
                let iter = buckets m ! hash in
                if iter = Sentinel then
                  (case link_before (values_list m) (begin_it (values_list m)) (heap m) kv of
                     None \<Rightarrow> Inl UB
                   | Some vals \<Rightarrow>
                       Inr (m\<lparr>values_list := vals,
                              buckets := (buckets m)[hash := begin_it vals],
                              heap := Suc (heap m)\<rparr>, begin_it vals, True))
                else
                  (case link_before (values_list m) iter (heap m) kv of
                     None \<Rightarrow> Inl UB
                   | Some vals \<Rightarrow>
                       (case prev_iter vals iter of
                          None \<Rightarrow> Inl UB
                        | Some p \<Rightarrow>
                            Inr (m\<lparr>values_list := vals,
                                   buckets := (buckets m)[hash := p],
                                   heap := Suc (heap m)\<rparr>, p, True)))))"

text \<open>
  The first loop of \<open>rehash\<close>: every item is moved to the back of the list \<open>copy\<close>, in a
  node of its own, and its old node is popped from the front of \<open>values_\<close>.
\<close>

fun drain :: "'a List \<Rightarrow> 'a List \<Rightarrow> addr \<Rightarrow> 'a List \<times> 'a List \<times> addr" where
  "drain [] copy hp = ([], copy, hp)"
| "drain ((a, item) # rest) copy hp = drain rest (copy @ [(hp, item)]) (Suc hp)"

text \<open>
  The arithmetic on the load factor. \<open>static_cast<size_t>\<close> of a \<open>double\<close> truncates
  towards zero and is undefined when the truncated value is negative. A quotient by a
  zero load factor is an infinity or a NaN; every quotient of the source is converted to
  \<open>size_t\<close>, which is undefined for those.
\<close>

definition to_size_t :: "rat \<Rightarrow> nat option" where
  "to_size_t x = (if x \<le> - 1 then None else Some (nat \<lfloor>x\<rfloor>))"

definition fdiv :: "rat \<Rightarrow> rat \<Rightarrow> rat option" where
  "fdiv x y = (if y = 0 then None else Some (x / y))"

text \<open>
  \<open>emplace\<close>, \<open>reserve\<close>, \<open>rehash\<close> and the second loop of \<open>rehash\<close> call one another:
  \<open>emplace\<close> grows the table through \<open>reserve\<close> before it builds the entry, and
  \<open>rehash\<close> puts every item back through \<open>insert\<close>, which is \<open>emplace\<close> and runs the
  capacity check again. The last argument of \<open>emplace\<close> is the outcome of constructing
  the scratch \<open>std::pair<Key, Value>\<close> from the arguments: \<open>None\<close> when that constructor
  throws. \<open>growing_coefficient * size()\<close> is a whole number, which \<open>std::ceil\<close> leaves
  as it is; \<open>default_start_size\<close> is 16.

  \<open>buckets_.assign(count, values_.end())\<close> needs new storage when the vector holds
  fewer than \<open>count\<close> slots: it throws \<open>std::length_error\<close> when \<open>count\<close> exceeds
  the vector's \<open>max_size()\<close> and \<open>std::bad_alloc\<close> when the memory is not there, and
  leaves the vector as it was. A vector that holds \<open>count\<close> slots or more is assigned in
  place. How many slots the vector can be given is not in the source: it is the last
  argument \<open>vmax\<close> of \<open>reserve\<close> and \<open>rehash\<close> (\<open>\<infinity>\<close> when every count can be
  had). \<open>rehash\<close> has no handler: when the assignment throws, \<open>values_\<close> has been
  drained already and the local list \<open>copy\<close> is destroyed with the items it holds, so
  the exception leaves a map without nodes whose bucket vector still holds the old heads.
  The growth that \<open>emplace\<close> itself asks for, \<open>max(16, 2 * size())\<close> elements, is taken
  to find its storage, as the allocation of a list node is: the allocator's answers are
  not part of the map's state.
\<close>

definition assign_throws :: "('k, 'v) UnorderedMap \<Rightarrow> nat \<Rightarrow> enat \<Rightarrow> bool" where
  "assign_throws m cnt vmax \<longleftrightarrow> bucket_count m < cnt \<and> vmax < enat cnt"

function emplace :: "('k \<Rightarrow> nat) \<Rightarrow> ('k, 'v) UnorderedMap \<Rightarrow> ('k \<times> 'v) option \<Rightarrow>
    ('k, 'v) UnorderedMap error + ('k, 'v) UnorderedMap \<times> iter \<times> bool"
  and reserve :: "('k \<Rightarrow> nat) \<Rightarrow> ('k, 'v) UnorderedMap \<Rightarrow> nat \<Rightarrow> enat \<Rightarrow>
    ('k, 'v) UnorderedMap error + ('k, 'v) UnorderedMap"
  and rehash :: "('k \<Rightarrow> nat) \<Rightarrow> ('k, 'v) UnorderedMap \<Rightarrow> nat \<Rightarrow> enat \<Rightarrow>
    ('k, 'v) UnorderedMap error + ('k, 'v) UnorderedMap"
  and reinsert :: "('k \<Rightarrow> nat) \<Rightarrow> ('k, 'v) UnorderedMap \<Rightarrow> ('k \<times> 'v) List \<Rightarrow>
    ('k, 'v) UnorderedMap error + ('k, 'v) UnorderedMap"
where
  "emplace h m c =
     (case to_size_t (of_nat (bucket_count m) * max_factor m) of
        None \<Rightarrow> Inl UB
      | Some cap \<Rightarrow>
          (case (if size_of m + 1 > cap
                 then reserve h m (max 16 (2 * size_of m)) \<infinity>
                 else Inr m) of
             Inl e \<Rightarrow> Inl e
           | Inr m1 \<Rightarrow> (case c of None \<Rightarrow> Inl (Throw m1) | Some kv \<Rightarrow> place h m1 kv)))"
| "reserve h m n vmax =
     (case fdiv (of_nat n) (max_factor m) of
        None \<Rightarrow> Inl UB
      | Some q \<Rightarrow>
          (case to_size_t (of_int \<lceil>q\<rceil>) of
             None \<Rightarrow> Inl UB
           | Some c \<Rightarrow> rehash h m c vmax))"
| "rehash h m n vmax =
     (case fdiv (of_nat (size_of m)) (max_factor m) of
        None \<Rightarrow> Inl UB
      | Some q \<Rightarrow>
          (case to_size_t q of
             None \<Rightarrow> Inl UB
           | Some c \<Rightarrow>
               let count = max n c in
               if count = bucket_count m then Inr m
               else case drain (values_list m) [] (heap m) of
                 (vals, copy, hp) \<Rightarrow>
                   if assign_throws m count vmax
                   then Inl (Throw (m\<lparr>values_list := vals, heap := hp\<rparr>))
                   else reinsert h (m\<lparr>values_list := vals,
                                     buckets := replicate count Sentinel, heap := hp\<rparr>) copy))"
| "reinsert h m [] = Inr m"
| "reinsert h m ((a, item) # copy) =
     (case emplace h m (Some item) of
        Inl e \<Rightarrow> Inl e
      | Inr (m', r) \<Rightarrow> reinsert h m' copy)"
  by pat_completeness auto

text \<open>
  Termination. A call of \<open>emplace\<close> inside \<open>reinsert\<close> works on the map that the
  previous call returned, so the measure needs a bound on the size of that map: an
  \<open>emplace\<close> adds at most one node, and a \<open>rehash\<close> adds none.
\<close>

lemma link_before_length:
  "link_before l it a x = Some l' \<Longrightarrow> length l' = Suc (length l)"
  by (induction l it a x arbitrary: l' rule: link_before.induct) (auto split: if_splits)

lemma place_size:
  "place h m kv = Inr (m', r) \<Longrightarrow> size_of m' \<le> Suc (size_of m)"
  by (auto simp: place_def size_of_def Let_def dest: link_before_length
      split: option.splits if_splits)

lemma drain_eq:
  "drain l copy hp = ([], copy @ zip [hp..<hp + length l] (map snd l), hp + length l)"
proof (induction l arbitrary: copy hp)
  case Nil
  then show ?case by simp
next
  case (Cons n l)
  obtain a x where n: "n = (a, x)" by (cases n)
  have "[hp..<hp + Suc (length l)] = hp # [Suc hp..<Suc hp + length l]"
    by (simp add: upt_rec)
  then show ?case using Cons[of "copy @ [(hp, x)]" "Suc hp"] n by simp
qed

lemma size_bound_partial:
  fixes h h1 h2 h3 :: "'k \<Rightarrow> nat" and m m1 m2 m3 :: "('k, 'v) UnorderedMap"
  shows "emplace_reserve_rehash_reinsert_dom (Inl (Inl (h, m, c))) \<Longrightarrow>
     (\<forall>m' r. emplace h m c = Inr (m', r) \<longrightarrow> size_of m' \<le> Suc (size_of m))"
  and "emplace_reserve_rehash_reinsert_dom (Inl (Inr (h1, m1, n1, vmax1))) \<Longrightarrow>
     (\<forall>m'. reserve h1 m1 n1 vmax1 = Inr m' \<longrightarrow> size_of m' \<le> size_of m1)"
  and "emplace_reserve_rehash_reinsert_dom (Inr (Inl (h2, m2, n2, vmax2))) \<Longrightarrow>
     (\<forall>m'. rehash h2 m2 n2 vmax2 = Inr m' \<longrightarrow> size_of m' \<le> size_of m2)"
  and "emplace_reserve_rehash_reinsert_dom (Inr (Inr (h3, m3, copy))) \<Longrightarrow>
     (\<forall>m'. reinsert h3 m3 copy = Inr m' \<longrightarrow> size_of m' \<le> size_of m3 + length copy)"
proof (induct h m c and h1 m1 n1 vmax1 and h2 m2 n2 vmax2 and h3 m3 copy
    rule: emplace_reserve_rehash_reinsert.pinduct)
  case (1 h m c)
  show ?case
  proof (intro allI impI)
    fix m' r assume e: "emplace h m c = Inr (m', r)"
    with 1(1) obtain cap where cap: "to_size_t (of_nat (bucket_count m) * max_factor m) = Some cap"
      by (auto simp: emplace.psimps split: option.splits)
    show "size_of m' \<le> Suc (size_of m)"
    proof (cases "cap < size_of m + 1")
      case True
      with e 1(1) 1(2)[OF cap True] cap show ?thesis
        by (auto simp: emplace.psimps split: sum.splits option.splits dest!: place_size)
    next
      case False
      with e 1(1) cap show ?thesis
        by (auto simp: emplace.psimps split: sum.splits option.splits dest!: place_size)
    qed
  qed
next
  case (2 h m n vmax)
  then show ?case by (auto simp: reserve.psimps split: option.splits)
next
  case (3 h m n vmax)
  then show ?case
    by (auto simp: rehash.psimps Let_def drain_eq size_of_def split: if_splits option.splits)
next
  case (4 h m)
  then show ?case by (simp add: reinsert.psimps)
next
  case (5 h m a item copy)
  then show ?case
    by (fastforce simp: reinsert.psimps split: sum.splits)
qed

termination emplace
proof (relation "inv_image (less_than <*lex*> less_than <*lex*> less_than)
     (\<lambda>x. case x of Inl (Inl (h, m, c)) \<Rightarrow> (size_of m, 3::nat, 0::nat)
         | Inl (Inr (h, m, n, vmax)) \<Rightarrow> (size_of m, 2, 0)
         | Inr (Inl (h, m, n, vmax)) \<Rightarrow> (size_of m, 1, 0)
         | Inr (Inr (h, m, copy)) \<Rightarrow> (size_of m + length copy, 0, length copy))",
    goal_cases)
  case 1
  then show ?case by (intro wf_inv_image wf_lex_prod wf_less_than)
next
  case (2 h m c)
  then show ?case by simp
next
  case (3 h m n vmax)
  then show ?case by simp
next
  case (4 h m n vmax x xa y xb ya)
  then show ?case by (simp add: drain_eq size_of_def)
next
  case (5 h m a item copy)
  then show ?case by simp
next
  case (6 h m a item copy b x y)
  then show ?case using size_bound_partial(1)[OF 6(3)] by auto
qed

declare emplace.simps [simp del] reserve.simps [simp del] rehash.simps [simp del]

text \<open>\<open>insert(const NodeType&)\<close> and \<open>insert(NodeType&&)\<close> pass the pair on to \<open>emplace\<close>.\<close>

definition insert_kv :: "('k \<Rightarrow> nat) \<Rightarrow> ('k, 'v) UnorderedMap \<Rightarrow> 'k \<times> 'v \<Rightarrow>
    ('k, 'v) UnorderedMap error + ('k, 'v) UnorderedMap \<times> iter \<times> bool" where
  "insert_kv h m kv = emplace h m (Some kv)"

text \<open>
  The range \<open>insert(begin, end)\<close> inserts the elements of the range one after the other.
\<close>

fun insert_range :: "('k \<Rightarrow> nat) \<Rightarrow> ('k, 'v) UnorderedMap \<Rightarrow> ('k \<times> 'v) list \<Rightarrow>
    ('k, 'v) UnorderedMap error + ('k, 'v) UnorderedMap" where
  "insert_range h m [] = Inr m"
| "insert_range h m (kv # kvs) =
     (case insert_kv h m kv of
        Inl e \<Rightarrow> Inl e
      | Inr (m', r) \<Rightarrow> insert_range h m' kvs)"

subsection \<open>Erasure, indexing, move construction\<close>

text \<open>
  \<open>erase(iter)\<close>: the result is found by looking up the key of the next node (the
  \<open>assert\<close> stops the program when that lookup misses). When the erased node is its
  bucket's head, the head becomes the result if that is in the same bucket and the
  sentinel otherwise; then the node is unlinked.
\<close>

definition erase :: "('k \<Rightarrow> nat) \<Rightarrow> ('k, 'v) UnorderedMap \<Rightarrow> iter \<Rightarrow>
    ('k, 'v) UnorderedMap error + ('k, 'v) UnorderedMap \<times> iter" where
  "erase h m it =
     (case deref (values_list m) it of
        None \<Rightarrow> Inl UB
      | Some (k, v) \<Rightarrow>
     (case get_hash h m k of
        None \<Rightarrow> Inl UB
      | Some hash \<Rightarrow>
     (case next_iter (values_list m) it of
        None \<Rightarrow> Inl UB
      | Some nx \<Rightarrow>
     (case (if nx \<noteq> Sentinel then
              (case deref (values_list m) nx of
                 None \<Rightarrow> Inl UB
               | Some (k', v') \<Rightarrow>
                   (case find_mut h m k' of
                      None \<Rightarrow> Inl UB
                    | Some r \<Rightarrow> if r \<noteq> Sentinel then Inr r else Inl Abort))
            else Inr Sentinel) of
        Inl e \<Rightarrow> Inl e
      | Inr result \<Rightarrow>
     (case (if it = buckets m ! hash then
              (if result \<noteq> Sentinel then
                 (case deref (values_list m) result of
                    None \<Rightarrow> None
                  | Some (k'', v'') \<Rightarrow>
                      Some ((buckets m)[hash :=
                        (if h k'' mod bucket_count m = hash then result else Sentinel)]))
               else Some ((buckets m)[hash := Sentinel]))
            else Some (buckets m)) of
        None \<Rightarrow> Inl UB
      | Some bs \<Rightarrow>
     (case List_erase (values_list m) it of
        None \<Rightarrow> Inl UB
      | Some vals \<Rightarrow> Inr (m\<lparr>values_list := vals, buckets := bs\<rparr>, result)))))))"


text \<open>
  The move constructor starts from a default-constructed map on the source's allocator,
  gives it as many empty buckets as the source has, clears the source's bucket vector,
  and then moves the source's items over one by one, front first, through \<open>emplace\<close>,
  popping each from the source. The result is the new map and the source as it is left.
\<close>

fun move_loop :: "('k \<Rightarrow> nat) \<Rightarrow> ('k, 'v) UnorderedMap \<Rightarrow> ('k \<times> 'v) List \<Rightarrow>
    ('k, 'v) UnorderedMap error + ('k, 'v) UnorderedMap" where
  "move_loop h m [] = Inr m"
| "move_loop h m ((a, item) # rest) =
     (case emplace h m (Some item) of
        Inl e \<Rightarrow> Inl e
      | Inr (m', r) \<Rightarrow> move_loop h m' rest)"

definition move_construct :: "('k \<Rightarrow> nat) \<Rightarrow> ('k, 'v) UnorderedMap \<Rightarrow>
    ('k, 'v) UnorderedMap error + ('k, 'v) UnorderedMap \<times> ('k, 'v) UnorderedMap" where
  "move_construct h src =
     (case move_loop h
             (empty_map\<lparr>buckets := replicate (bucket_count src) Sentinel, heap := heap src\<rparr>)
             (values_list src) of
        Inl e \<Rightarrow> Inl e
      | Inr new \<Rightarrow> Inr (new, src\<lparr>values_list := [], buckets := [], heap := heap new\<rparr>))"

section \<open>Well-formed maps\<close>

text \<open>
  A node is in bucket \<open>b\<close> of a table with \<open>n\<close> buckets when its key hashes to \<open>b\<close>
  modulo \<open>n\<close>.
\<close>

definition in_bucket :: "('k \<Rightarrow> nat) \<Rightarrow> nat \<Rightarrow> nat \<Rightarrow> addr \<times> 'k \<times> 'v \<Rightarrow> bool" where
  "in_bucket h n b node \<longleftrightarrow> h (fst (snd node)) mod n = b"

text \<open>
  The nodes that satisfy \<open>P\<close> are adjacent in \<open>l\<close>: once the nodes before the first of
  them are dropped, they are all found at the front.
\<close>

definition runs_ok :: "('a \<Rightarrow> bool) \<Rightarrow> 'a list \<Rightarrow> bool" where
  "runs_ok P l \<longleftrightarrow> filter P l = takeWhile P (dropWhile (\<lambda>x. \<not> P x) l)"

text \<open>
  The state the operations keep the container in: a positive load factor; nodes at
  distinct addresses that the allocator has handed out; distinct keys; a bucket vector
  that is not empty once there is a node; and for every bucket, its slot holds the first
  node of the bucket along the list (the sentinel when there is none) and the bucket's
  nodes are adjacent.
\<close>

definition valid_map :: "('k \<Rightarrow> nat) \<Rightarrow> ('k, 'v) UnorderedMap \<Rightarrow> bool" where
  "valid_map h m \<longleftrightarrow>
     0 < max_factor m \<and>
     distinct (map fst (values_list m)) \<and>
     (\<forall>a \<in> fst ` set (values_list m). a < heap m) \<and>
     distinct (map (fst \<circ> snd) (values_list m)) \<and>
     (values_list m \<noteq> [] \<longrightarrow> buckets m \<noteq> []) \<and>
     (\<forall>b < bucket_count m.
        buckets m ! b = begin_it (filter (in_bucket h (bucket_count m) b) (values_list m)) \<and>
        runs_ok (in_bucket h (bucket_count m) b) (values_list m))"

text \<open>
  The contents of a map: the multiset of its entries, its keys, the iterator of the
  first node that holds a key (the sentinel when no node does), and the entry that the
  iterator returned by \<open>find\<close> refers to.
\<close>

definition entries :: "('k, 'v) UnorderedMap \<Rightarrow> ('k \<times> 'v) multiset" where
  "entries m = mset (map snd (values_list m))"

definition keys_of :: "('k, 'v) UnorderedMap \<Rightarrow> 'k set" where
  "keys_of m = fst ` snd ` set (values_list m)"

definition key_iter :: "'k \<Rightarrow> ('k \<times> 'v) List \<Rightarrow> iter" where
  "key_iter k l = begin_it (filter (\<lambda>n. fst (snd n) = k) l)"

definition found :: "('k \<Rightarrow> nat) \<Rightarrow> ('k, 'v) UnorderedMap \<Rightarrow> 'k \<Rightarrow> ('k \<times> 'v) option" where
  "found h m k =
     (case find_mut h m k of
        None \<Rightarrow> None
      | Some it \<Rightarrow> deref (values_list m) it)"

text \<open>
  The contiguity invariant in the specification's words. The run of bucket \<open>b\<close> is the
  longest stretch of nodes of \<open>b\<close> that starts at the head stored for \<open>b\<close>. A stored head
  starts a run that is not empty, so it is a node of \<open>b\<close>, and the nodes of \<open>b\<close> in the
  whole list are exactly the nodes of that run.
\<close>

definition run_at :: "('k \<Rightarrow> nat) \<Rightarrow> ('k, 'v) UnorderedMap \<Rightarrow> nat \<Rightarrow> ('k \<times> 'v) List" where
  "run_at h m b =
     takeWhile (in_bucket h (bucket_count m) b) (from_iter (buckets m ! b) (values_list m))"

definition contiguity :: "('k \<Rightarrow> nat) \<Rightarrow> ('k, 'v) UnorderedMap \<Rightarrow> bool" where
  "contiguity h m \<longleftrightarrow>
     (\<forall>b < bucket_count m.
        (buckets m ! b \<noteq> Sentinel \<longrightarrow> run_at h m b \<noteq> []) \<and>
        filter (in_bucket h (bucket_count m) b) (values_list m) = run_at h m b)"

text \<open>
  The maps that a program can build from the default-constructed one with calls of
  \<open>emplace\<close> (\<open>insert\<close> is \<open>emplace\<close>), \<open>erase\<close> and \<open>rehash\<close> that return; an
  \<open>emplace\<close> whose entry constructor throws leaves a map behind, too. The map that a
  \<open>rehash\<close> leaves behind when \<open>buckets_.assign\<close> throws is not among them.
\<close>

inductive reachable :: "('k \<Rightarrow> nat) \<Rightarrow> ('k, 'v) UnorderedMap \<Rightarrow> bool" for h where
  start: "reachable h empty_map"
| emplaced: "reachable h m \<Longrightarrow> emplace h m (Some kv) = Inr (m', r) \<Longrightarrow> reachable h m'"
| thrown: "reachable h m \<Longrightarrow> emplace h m None = Inl (Throw m') \<Longrightarrow> reachable h m'"
| erased: "reachable h m \<Longrightarrow> erase h m it = Inr (m', r') \<Longrightarrow> reachable h m'"
| rehashed: "reachable h m \<Longrightarrow> rehash h m n vmax = Inr m' \<Longrightarrow> reachable h m'"

text \<open>
  What the mutually recursive operations achieve on a well-formed map, one predicate for
  each, as the induction over their call structure needs them: they return (\<open>reserve\<close>
  and \<open>rehash\<close> when \<open>buckets_.assign\<close> does not throw), the result is well-formed
  again, and the entries are the old ones, plus the new entry when its key was absent.
\<close>

definition emplace_ok :: "('k \<Rightarrow> nat) \<Rightarrow> ('k, 'v) UnorderedMap \<Rightarrow> ('k \<times> 'v) option \<Rightarrow> bool" where
  "emplace_ok h m c \<longleftrightarrow>
     (case c of
        None \<Rightarrow> (\<exists>m1. emplace h m None = Inl (Throw m1) \<and> valid_map h m1 \<and>
                     entries m1 = entries m \<and> max_factor m1 = max_factor m \<and> buckets m1 \<noteq> [])
      | Some kv \<Rightarrow> (\<exists>m' b. emplace h m (Some kv) = Inr (m', key_iter (fst kv) (values_list m'), b) \<and>
                     valid_map h m' \<and> max_factor m' = max_factor m \<and> buckets m' \<noteq> [] \<and>
                     b = (fst kv \<notin> keys_of m) \<and>
                     entries m' = (if fst kv \<in> keys_of m then entries m
                                   else add_mset kv (entries m))))"

definition rehash_ok :: "('k \<Rightarrow> nat) \<Rightarrow> ('k, 'v) UnorderedMap \<Rightarrow> nat \<Rightarrow>
    (('k, 'v) UnorderedMap error + ('k, 'v) UnorderedMap) \<Rightarrow> bool" where
  "rehash_ok h m n res \<longleftrightarrow>
     (\<exists>m'. res = Inr m' \<and> valid_map h m' \<and> entries m' = entries m \<and>
           max_factor m' = max_factor m \<and> (0 < n \<longrightarrow> buckets m' \<noteq> []))"

definition reinsert_ok :: "('k \<Rightarrow> nat) \<Rightarrow> ('k, 'v) UnorderedMap \<Rightarrow> ('k \<times> 'v) List \<Rightarrow> bool" where
  "reinsert_ok h m copy \<longleftrightarrow>
     (\<exists>m'. reinsert h m copy = Inr m' \<and> valid_map h m' \<and>
           entries m' = entries m + mset (map snd copy) \<and>
           max_factor m' = max_factor m \<and> (buckets m \<noteq> [] \<longrightarrow> buckets m' \<noteq> []))"

text \<open>
  Concrete inputs for the scenarios below. \<open>std::hash\<close> of an integer key is taken to
  be the key itself, as in the common standard libraries. \<open>single_map\<close> is the map after
  \<open>insert({1, 10})\<close> into a default-constructed map, \<open>example_map\<close> the one after
  \<open>insert({23, 20})\<close> as well (both keys fall into bucket 1 of 22), and
  \<open>thirteen_map\<close> the one after the keys 1 to 13 have been inserted in this order,
  \<open>sixteen_map\<close> the one after the keys 1 to 16. \<open>sixteen_rebuilt\<close> holds the
  entries of \<open>sixteen_map\<close> after they have been moved into 43 buckets, each in a new
  node. \<open>example_drained\<close> is \<open>example_map\<close> without its two nodes, with the bucket
  vector it had, after four nodes have been allocated. \<open>vector_max_size\<close> is
  \<open>max_size()\<close> of a vector of list iterators, which are one pointer of 8 bytes each,
  in libstdc++ with a 64-bit \<open>ptrdiff_t\<close>: \<open>PTRDIFF_MAX / 8\<close>. No vector of such slots
  has \<open>2^62\<close> of them in an address space of \<open>2^64\<close> bytes.
\<close>

definition std_hash :: "nat \<Rightarrow> nat" where
  "std_hash k = k"

definition single_map :: "(nat, nat) UnorderedMap" where
  "single_map = \<lparr>max_factor = 3 / 4, values_list = [(0, (1, 10))],
      buckets = (replicate 22 Sentinel)[1 := Node 0], heap = 1\<rparr>"

definition example_map :: "(nat, nat) UnorderedMap" where
  "example_map = \<lparr>max_factor = 3 / 4, values_list = [(1, (23, 20)), (0, (1, 10))],
      buckets = (replicate 22 Sentinel)[1 := Node 1], heap = 2\<rparr>"

definition thirteen_map :: "(nat, nat) UnorderedMap" where
  "thirteen_map = \<lparr>max_factor = 3 / 4,
      values_list = [(12, (13, 130)), (11, (12, 120)), (10, (11, 110)), (9, (10, 100)),
         (8, (9, 90)), (7, (8, 80)), (6, (7, 70)), (5, (6, 60)), (4, (5, 50)),
         (3, (4, 40)), (2, (3, 30)), (1, (2, 20)), (0, (1, 10))],
      buckets = [Sentinel, Node 0, Node 1, Node 2, Node 3, Node 4, Node 5, Node 6, Node 7,
         Node 8, Node 9, Node 10, Node 11, Node 12, Sentinel, Sentinel, Sentinel, Sentinel,
         Sentinel, Sentinel, Sentinel, Sentinel],
      heap = 13\<rparr>"



definition example_drained :: "(nat, nat) UnorderedMap" where
  "example_drained = \<lparr>max_factor = 3 / 4, values_list = [],
      buckets = (replicate 22 Sentinel)[1 := Node 1], heap = 4\<rparr>"

definition vector_max_size :: enat where
  "vector_max_size = enat (2 ^ 60 - 1)"

section \<open>Lemmas\<close>

lemma filter_empty_takeWhile: "filter P l = [] \<Longrightarrow> takeWhile P l = []"
  by (cases l) (auto split: if_splits)

lemma takeWhile_filter_length: "length (takeWhile P l) \<le> length (filter P l)"
  by (induction l) auto

lemma runs_ok_Cons_not: "\<not> P x \<Longrightarrow> runs_ok P (x # l) = runs_ok P l"
  by (simp add: runs_ok_def)

lemma runs_ok_Cons_in: "P x \<Longrightarrow> runs_ok P (x # l) \<longleftrightarrow> filter P l = takeWhile P l"
  by (simp add: runs_ok_def)

lemma runs_ok_Nil: "runs_ok P []"
  by (simp add: runs_ok_def)

lemma runs_ok_no_elems: "filter P l = [] \<Longrightarrow> runs_ok P l"
  by (induction l) (auto simp: runs_ok_Nil runs_ok_Cons_not split: if_splits)

lemma front_run_remove:
  "filter P (pre @ x # post) = takeWhile P (pre @ x # post) \<Longrightarrow>
   filter P (pre @ post) = takeWhile P (pre @ post)"
proof (induction pre)
  case Nil
  then show ?case by (auto split: if_splits dest: filter_empty_takeWhile[symmetric])
next
  case (Cons a pre)
  show ?case
  proof (cases "P a")
    case True
    with Cons show ?thesis by simp
  next
    case False
    with Cons.prems have "filter P (pre @ x # post) = []" by simp
    then have "filter P (pre @ post) = []" by (auto simp: filter_empty_conv split: if_splits)
    with False show ?thesis by simp
  qed
qed

lemma runs_ok_remove: "runs_ok P (pre @ x # post) \<Longrightarrow> runs_ok P (pre @ post)"
proof (induction pre)
  case Nil
  show ?case
  proof (cases "P x")
    case True
    with Nil have "filter P post = takeWhile P post" by (simp add: runs_ok_Cons_in)
    then show ?thesis
      by (cases post) (auto simp: runs_ok_Nil runs_ok_Cons_in runs_ok_no_elems split: if_splits)
  next
    case False
    with Nil show ?thesis by (simp add: runs_ok_Cons_not)
  qed
next
  case (Cons a pre)
  show ?case
  proof (cases "P a")
    case True
    with Cons.prems have "filter P (pre @ x # post) = takeWhile P (pre @ x # post)"
      by (simp add: runs_ok_Cons_in)
    then have "filter P (pre @ post) = takeWhile P (pre @ post)" by (rule front_run_remove)
    with True show ?thesis by (simp add: runs_ok_Cons_in)
  next
    case False
    with Cons show ?thesis by (simp add: runs_ok_Cons_not)
  qed
qed

lemma front_run_insert_not:
  "filter P (pre @ y # post) = takeWhile P (pre @ y # post) \<Longrightarrow> \<not> P x \<Longrightarrow> \<not> P y \<Longrightarrow>
   filter P (pre @ x # y # post) = takeWhile P (pre @ x # y # post)"
proof (induction pre)
  case Nil
  then show ?case by simp
next
  case (Cons a pre)
  show ?case
  proof (cases "P a")
    case True
    with Cons show ?thesis by simp
  next
    case False
    with Cons.prems have "filter P (pre @ y # post) = []" by simp
    then have "filter P (pre @ x # y # post) = []" using Cons.prems by (auto simp: filter_empty_conv)
    with False show ?thesis by simp
  qed
qed

lemma runs_ok_insert_not:
  "runs_ok P (pre @ y # post) \<Longrightarrow> \<not> P x \<Longrightarrow> \<not> P y \<Longrightarrow> runs_ok P (pre @ x # y # post)"
proof (induction pre)
  case Nil
  then show ?case by (simp add: runs_ok_Cons_not)
next
  case (Cons a pre)
  show ?case
  proof (cases "P a")
    case True
    with Cons.prems have "filter P (pre @ y # post) = takeWhile P (pre @ y # post)"
      by (simp add: runs_ok_Cons_in)
    then have "filter P (pre @ x # y # post) = takeWhile P (pre @ x # y # post)"
      using Cons.prems by (intro front_run_insert_not)
    with True show ?thesis by (simp add: runs_ok_Cons_in)
  next
    case False
    with Cons show ?thesis by (simp add: runs_ok_Cons_not)
  qed
qed

lemma runs_ok_insert_in:
  "runs_ok P (pre @ y # post) \<Longrightarrow> P x \<Longrightarrow> P y \<Longrightarrow> filter P pre = [] \<Longrightarrow>
   runs_ok P (pre @ x # y # post)"
proof (induction pre)
  case Nil
  then show ?case by (simp add: runs_ok_Cons_in)
next
  case (Cons a pre)
  then have "\<not> P a" by (auto split: if_splits)
  with Cons show ?case by (simp add: runs_ok_Cons_not)
qed

lemma from_iter_first:
  "distinct (map fst l) \<Longrightarrow> filter P l = x # r \<Longrightarrow>
   from_iter (Node (fst x)) l = dropWhile (\<lambda>n. \<not> P n) l"
proof (induction l)
  case Nil
  then show ?case by simp
next
  case (Cons a l)
  show ?case
  proof (cases "P a")
    case True
    with Cons.prems show ?thesis by simp
  next
    case False
    with Cons.prems have f: "filter P l = x # r" by simp
    then have "x \<in> set l" by (metis filter_eq_ConsD in_set_conv_decomp)
    with Cons.prems have "fst a \<noteq> fst x" by force
    with False Cons f show ?thesis by simp
  qed
qed

lemma find_loop_key_iter:
  "hash = h k mod n \<Longrightarrow>
   find_loop h n k hash s = key_iter k (takeWhile (in_bucket h n hash) s)"
  by (induction s rule: find_loop.induct[of _ h n k hash])
     (auto simp: key_iter_def in_bucket_def)

lemma key_iter_filter_bucket:
  "key_iter k (filter (in_bucket h n (h k mod n)) l) = key_iter k l"
proof -
  have "filter (\<lambda>n. fst (snd n) = k) (filter (in_bucket h n (h k mod n)) l)
      = filter (\<lambda>n. fst (snd n) = k) l"
    by (auto simp: in_bucket_def intro!: filter_cong)
  then show ?thesis by (simp add: key_iter_def)
qed

lemma find_mut_valid:
  assumes "valid_map h m"
  shows "find_mut h m k = Some (key_iter k (values_list m))"
proof (cases "values_list m = []")
  case True
  then show ?thesis by (simp add: find_mut_def key_iter_def)
next
  case False
  define n where "n = bucket_count m"
  define b where "b = h k mod n"
  define l where "l = values_list m"
  from False assms have n0: "n \<noteq> 0" by (auto simp: valid_map_def n_def bucket_count_def)
  then have bn: "b < n" by (simp add: b_def)
  have gh: "get_hash h m k = Some b" using n0 by (simp add: get_hash_def n_def b_def)
  from assms bn have hd: "buckets m ! b = begin_it (filter (in_bucket h n b) l)"
    and ro: "runs_ok (in_bucket h n b) l" and dist: "distinct (map fst l)"
    by (auto simp: valid_map_def n_def l_def)
  show ?thesis
  proof (cases "filter (in_bucket h n b) l")
    case Nil
    then have "key_iter k (filter (in_bucket h n b) l) = Sentinel" by (simp add: key_iter_def)
    then have "key_iter k l = Sentinel" by (simp add: b_def key_iter_filter_bucket)
    with False gh hd Nil show ?thesis by (simp add: find_mut_def l_def)
  next
    case (Cons x r)
    then have "x \<in> set l" by (metis filter_eq_ConsD in_set_conv_decomp)
    then have xin: "fst x \<in> fst ` set l" by simp
    have fi: "from_iter (Node (fst x)) l = dropWhile (\<lambda>n'. \<not> in_bucket h n b n') l"
      using dist Cons by (rule from_iter_first)
    have "find_loop h n k b (from_iter (Node (fst x)) l)
        = key_iter k (takeWhile (in_bucket h n b) (dropWhile (\<lambda>n'. \<not> in_bucket h n b n') l))"
      by (subst fi) (simp add: find_loop_key_iter b_def)
    also have "\<dots> = key_iter k (filter (in_bucket h n b) l)"
      using ro by (simp add: runs_ok_def)
    also have "\<dots> = key_iter k l" by (simp add: b_def key_iter_filter_bucket)
    finally have "find_loop h n k b (from_iter (Node (fst x)) l) = key_iter k l" .
    moreover have "buckets m ! b = Node (fst x)" using hd Cons by (cases x) simp
    ultimately show ?thesis using False gh xin
      by (simp add: find_mut_def l_def n_def del: from_iter.simps)
  qed
qed

lemma link_before_begin: "link_before l (begin_it l) a x = Some ((a, x) # l)"
  by (cases l) auto

lemma link_before_split:
  "c \<notin> fst ` set pre \<Longrightarrow>
   link_before (pre @ (c, y) # post) (Node c) a x = Some (pre @ (a, x) # (c, y) # post)"
  by (induction pre) auto

lemma prev_from_split:
  "c \<notin> fst ` set pre \<Longrightarrow> a \<noteq> c \<Longrightarrow>
   prev_from p (pre @ (a, x) # (c, y) # post) c = Some (Node a)"
  by (induction pre arbitrary: p) auto

lemma List_erase_split:
  "c \<notin> fst ` set pre \<Longrightarrow> List_erase (pre @ (c, y) # post) (Node c) = Some (pre @ post)"
  by (induction pre) auto

lemma next_iter_split:
  "c \<notin> fst ` set pre \<Longrightarrow> next_iter (pre @ (c, y) # post) (Node c) = Some (begin_it post)"
  by (induction pre) auto

lemma map_of_split:
  "c \<notin> fst ` set pre \<Longrightarrow> map_of (pre @ (c, y) # post) c = Some y"
  by (induction pre) auto

lemma addr_split:
  "a \<in> fst ` set l \<Longrightarrow> \<exists>pre y post. l = pre @ (a, y) # post \<and> a \<notin> fst ` set pre"
proof (induction l)
  case Nil
  then show ?case by simp
next
  case (Cons n l)
  show ?case
  proof (cases "fst n = a")
    case True
    then have "n # l = [] @ (a, snd n) # l \<and> a \<notin> fst ` set []" by auto
    then show ?thesis by blast
  next
    case False
    with Cons obtain pre y post where "l = pre @ (a, y) # post" "a \<notin> fst ` set pre" by auto
    with False have "n # l = (n # pre) @ (a, y) # post \<and> a \<notin> fst ` set (n # pre)" by auto
    then show ?thesis by blast
  qed
qed

lemma head_is_first:
  assumes "distinct (map fst (pre @ (c, y) # post))"
    and "begin_it (filter P (pre @ (c, y) # post)) = Node c"
  shows "filter P pre = [] \<and> P (c, y)"
proof -
  have pre: "filter P pre = []"
  proof (rule ccontr)
    assume "filter P pre \<noteq> []"
    then obtain z r where zr: "filter P pre = z # r" by (cases "filter P pre") auto
    then have "z \<in> set pre" by (metis filter_eq_ConsD in_set_conv_decomp)
    moreover from zr assms(2) have "fst z = c" by (cases z) auto
    ultimately show False using assms(1) by force
  qed
  have "P (c, y)"
  proof (rule ccontr)
    assume "\<not> P (c, y)"
    with pre assms(2) have b: "begin_it (filter P post) = Node c" by simp
    then obtain z r where zr: "filter P post = z # r" by (cases "filter P post") auto
    then have "z \<in> set post" by (metis filter_eq_ConsD in_set_conv_decomp)
    moreover from zr b have "fst z = c" by (cases z) auto
    ultimately show False using assms(1) by force
  qed
  with pre show ?thesis by simp
qed

lemma valid_insert_front:
  assumes v: "valid_map h m" and ne: "buckets m \<noteq> []"
    and b: "b = h k mod bucket_count m"
    and empty: "filter (in_bucket h (bucket_count m) b) (values_list m) = []"
    and fresh: "k \<notin> fst ` snd ` set (values_list m)"
  shows "valid_map h (m\<lparr>values_list := (heap m, (k, v)) # values_list m,
                         buckets := (buckets m)[b := Node (heap m)],
                         heap := Suc (heap m)\<rparr>)"
proof -
  let ?n = "bucket_count m"
  let ?new = "(heap m, (k, v))"
  have bn: "b < ?n" using ne b by (simp add: bucket_count_def)
  have inb: "in_bucket h ?n b ?new" by (simp add: in_bucket_def b)
  have other: "\<And>b'. b' \<noteq> b \<Longrightarrow> \<not> in_bucket h ?n b' ?new" by (auto simp: in_bucket_def b)
  have hp: "heap m \<notin> fst ` set (values_list m)" using v by (auto simp: valid_map_def)
  have "\<forall>b' < ?n.
      (buckets m)[b := Node (heap m)] ! b'
        = begin_it (filter (in_bucket h ?n b') (?new # values_list m)) \<and>
      runs_ok (in_bucket h ?n b') (?new # values_list m)"
  proof (intro allI impI)
    fix b' assume b': "b' < ?n"
    show "(buckets m)[b := Node (heap m)] ! b'
        = begin_it (filter (in_bucket h ?n b') (?new # values_list m)) \<and>
      runs_ok (in_bucket h ?n b') (?new # values_list m)"
    proof (cases "b' = b")
      case True
      with inb empty bn show ?thesis
        by (simp add: runs_ok_Cons_in filter_empty_takeWhile bucket_count_def)
    next
      case False
      with other[OF False] v b' show ?thesis
        by (simp add: runs_ok_Cons_not valid_map_def)
    qed
  qed
  moreover have "distinct (map (fst \<circ> snd) (?new # values_list m))"
    using v fresh by (auto simp: valid_map_def image_iff)
  ultimately show ?thesis using v hp ne
    by (auto simp: valid_map_def bucket_count_def less_Suc_eq)
qed

lemma valid_insert_before:
  assumes v: "valid_map h m"
    and l: "values_list m = pre @ (c, y) # post"
    and b: "b = h k mod bucket_count m"
    and hd: "buckets m ! b = Node c"
    and fresh: "k \<notin> fst ` snd ` set (values_list m)"
  shows "valid_map h (m\<lparr>values_list := pre @ (heap m, (k, v)) # (c, y) # post,
                         buckets := (buckets m)[b := Node (heap m)],
                         heap := Suc (heap m)\<rparr>)"
proof -
  let ?n = "bucket_count m"
  let ?new = "(heap m, (k, v))"
  let ?l' = "pre @ ?new # (c, y) # post"
  have ne: "buckets m \<noteq> []" using v l by (auto simp: valid_map_def)
  have bn: "b < ?n" using ne b by (simp add: bucket_count_def)
  have inb: "in_bucket h ?n b ?new" by (simp add: in_bucket_def b)
  have other: "\<And>b'. b' \<noteq> b \<Longrightarrow> \<not> in_bucket h ?n b' ?new" by (auto simp: in_bucket_def b)
  have hp: "heap m \<notin> fst ` set (values_list m)" using v by (auto simp: valid_map_def)
  have dist: "distinct (map fst (pre @ (c, y) # post))" using v l by (simp add: valid_map_def)
  have "begin_it (filter (in_bucket h ?n b) (pre @ (c, y) # post)) = Node c"
    using v bn hd l by (simp add: valid_map_def)
  from head_is_first[OF dist this]
  have pre0: "filter (in_bucket h ?n b) pre = []" and cin: "in_bucket h ?n b (c, y)" by auto
  have cother: "\<And>b'. b' \<noteq> b \<Longrightarrow> \<not> in_bucket h ?n b' (c, y)"
    using cin by (auto simp: in_bucket_def)
  have "\<forall>b' < ?n.
      (buckets m)[b := Node (heap m)] ! b' = begin_it (filter (in_bucket h ?n b') ?l') \<and>
      runs_ok (in_bucket h ?n b') ?l'"
  proof (intro allI impI)
    fix b' assume b': "b' < ?n"
    from v b' l have old: "buckets m ! b' = begin_it (filter (in_bucket h ?n b') (pre @ (c, y) # post))"
      "runs_ok (in_bucket h ?n b') (pre @ (c, y) # post)"
      by (auto simp: valid_map_def)
    show "(buckets m)[b := Node (heap m)] ! b' = begin_it (filter (in_bucket h ?n b') ?l') \<and>
      runs_ok (in_bucket h ?n b') ?l'"
    proof (cases "b' = b")
      case True
      have "runs_ok (in_bucket h ?n b) ?l'"
        using old(2) inb cin pre0 unfolding True by (rule runs_ok_insert_in)
      with True inb pre0 bn show ?thesis by (simp add: bucket_count_def)
    next
      case False
      have "runs_ok (in_bucket h ?n b') ?l'"
        using old(2) other[OF False] cother[OF False] by (rule runs_ok_insert_not)
      with False other[OF False] old(1) show ?thesis by simp
    qed
  qed
  moreover have "distinct (map (fst \<circ> snd) ?l')"
    using v fresh l by (auto simp: valid_map_def image_iff)
  moreover have "distinct (map fst ?l')" using dist hp l by auto
  ultimately show ?thesis using v hp ne l
    by (auto simp: valid_map_def bucket_count_def less_Suc_eq)
qed

lemma key_iter_Sentinel: "key_iter k l = Sentinel \<longleftrightarrow> k \<notin> fst ` snd ` set l"
proof -
  have "key_iter k l = Sentinel \<longleftrightarrow> filter (\<lambda>n. fst (snd n) = k) l = []"
    unfolding key_iter_def by (cases "filter (\<lambda>n. fst (snd n) = k) l") auto
  then show ?thesis by (auto simp: filter_empty_conv image_iff)
qed

lemma key_iter_at:
  "k \<notin> fst ` snd ` set pre \<Longrightarrow> key_iter k (pre @ (a, (k, v)) # post) = Node a"
proof -
  assume "k \<notin> fst ` snd ` set pre"
  then have "filter (\<lambda>n. fst (snd n) = k) pre = []" by (auto simp: filter_empty_conv image_iff)
  then show ?thesis by (simp add: key_iter_def)
qed

lemma place_present:
  assumes "valid_map h m" and "k \<in> fst ` snd ` set (values_list m)"
  shows "place h m (k, v) = Inr (m, key_iter k (values_list m), False)"
  using assms by (simp add: place_def find_mut_valid key_iter_Sentinel)

lemma place_absent:
  assumes v: "valid_map h m" and ne: "buckets m \<noteq> []"
    and fresh: "k \<notin> fst ` snd ` set (values_list m)"
  shows "\<exists>m'. place h m (k, v) = Inr (m', Node (heap m), True) \<and> valid_map h m' \<and>
           mset (map snd (values_list m')) = add_mset (k, v) (mset (map snd (values_list m))) \<and>
           bucket_count m' = bucket_count m \<and> max_factor m' = max_factor m \<and>
           key_iter k (values_list m') = Node (heap m) \<and>
           (heap m, (k, v)) \<in> set (values_list m')"
proof -
  define b where "b = h k mod bucket_count m"
  have gh: "get_hash h m k = Some b" using ne by (simp add: get_hash_def b_def bucket_count_def)
  have bn: "b < bucket_count m" using ne by (simp add: b_def bucket_count_def)
  have fm: "find_mut h m k = Some Sentinel"
    using v fresh by (simp add: find_mut_valid key_iter_Sentinel)
  from v bn have hd: "buckets m ! b
      = begin_it (filter (in_bucket h (bucket_count m) b) (values_list m))"
    by (simp add: valid_map_def)
  show ?thesis
  proof (cases "buckets m ! b")
    case Sentinel
    with hd have empty: "filter (in_bucket h (bucket_count m) b) (values_list m) = []"
      by (cases "filter (in_bucket h (bucket_count m) b) (values_list m)") auto
    let ?m' = "m\<lparr>values_list := (heap m, (k, v)) # values_list m,
                  buckets := (buckets m)[b := Node (heap m)], heap := Suc (heap m)\<rparr>"
    have "place h m (k, v) = Inr (?m', Node (heap m), True)"
      using fm gh Sentinel by (simp add: place_def link_before_begin)
    moreover have "valid_map h ?m'"
      using v ne b_def empty fresh by (rule valid_insert_front)
    moreover have "key_iter k (values_list ?m') = Node (heap m)" by (simp add: key_iter_def)
    moreover have "mset (map snd (values_list ?m'))
        = add_mset (k, v) (mset (map snd (values_list m)))" by simp
    moreover have "bucket_count ?m' = bucket_count m" "max_factor ?m' = max_factor m"
      "(heap m, (k, v)) \<in> set (values_list ?m')" by (simp_all add: bucket_count_def)
    ultimately show ?thesis by blast
  next
    case (Node c)
    with hd obtain z r where zr: "filter (in_bucket h (bucket_count m) b) (values_list m) = z # r"
      and cz: "fst z = c"
      by (cases "filter (in_bucket h (bucket_count m) b) (values_list m)") auto
    then have "z \<in> set (values_list m)" by (metis filter_eq_ConsD in_set_conv_decomp)
    with cz have "c \<in> fst ` set (values_list m)" by force
    from addr_split[OF this] obtain pre y post
      where l: "values_list m = pre @ (c, y) # post" and cpre: "c \<notin> fst ` set pre" by blast
    have hc: "heap m \<noteq> c" using v l by (auto simp: valid_map_def)
    let ?m' = "m\<lparr>values_list := pre @ (heap m, (k, v)) # (c, y) # post,
                  buckets := (buckets m)[b := Node (heap m)], heap := Suc (heap m)\<rparr>"
    have "place h m (k, v) = Inr (?m', Node (heap m), True)"
      using fm gh Node l cpre hc
      by (simp add: place_def link_before_split prev_from_split)
    moreover have "valid_map h ?m'"
      using v l b_def Node fresh by (rule valid_insert_before)
    moreover have "key_iter k (values_list ?m') = Node (heap m)"
      using fresh l by (simp add: key_iter_at image_Un)
    moreover have "mset (map snd (values_list ?m'))
        = add_mset (k, v) (mset (map snd (values_list m)))" using l by simp
    moreover have "bucket_count ?m' = bucket_count m" "max_factor ?m' = max_factor m"
      "(heap m, (k, v)) \<in> set (values_list ?m')" by (simp_all add: bucket_count_def)
    ultimately show ?thesis by blast
  qed
qed

lemma keys_of_entries: "keys_of m = fst ` set_mset (entries m)"
  by (simp add: keys_of_def entries_def)

lemma size_of_entries: "size_of m = size (entries m)"
  by (simp add: size_of_def entries_def)

lemma key_iter_unique:
  assumes "distinct (map (fst \<circ> snd) l)" and "(a, (k, v)) \<in> set l"
  shows "key_iter k l = Node a"
proof -
  from assms(2) obtain pre post where l: "l = pre @ (a, (k, v)) # post"
    using split_list by fastforce
  with assms(1) have "k \<notin> fst ` snd ` set pre" by (auto simp: image_iff)
  with l show ?thesis by (simp add: key_iter_at)
qed

lemma key_iter_in:
  assumes "key_iter k l = Node a"
  shows "\<exists>v. (a, (k, v)) \<in> set l"
proof -
  from assms obtain z r where zr: "filter (\<lambda>n. fst (snd n) = k) l = z # r" and za: "fst z = a"
    unfolding key_iter_def by (cases "filter (\<lambda>n. fst (snd n) = k) l") auto
  from zr have "z \<in> set (filter (\<lambda>n. fst (snd n) = k) l)" by simp
  then have "z \<in> set l \<and> fst (snd z) = k" by simp
  with za show ?thesis by (cases z) auto
qed

lemma deref_in:
  "distinct (map fst l) \<Longrightarrow> (a, x) \<in> set l \<Longrightarrow> deref l (Node a) = Some x"
  by simp

lemma to_size_t_nonneg: "0 \<le> x \<Longrightarrow> to_size_t x = Some (nat \<lfloor>x\<rfloor>)"
  by (simp add: to_size_t_def)

lemma to_size_t_ceiling: "0 \<le> x \<Longrightarrow> to_size_t (of_int \<lceil>x\<rceil>) = Some (nat \<lceil>x\<rceil>)"
proof -
  assume "0 \<le> x"
  then have "0 \<le> \<lceil>x\<rceil>" by (simp add: zero_le_ceiling)
  then have "\<not> (of_int \<lceil>x\<rceil> :: rat) \<le> - 1" by linarith
  then show ?thesis by (simp add: to_size_t_def)
qed

lemma fdiv_pos: "0 < y \<Longrightarrow> fdiv x y = Some (x / y)"
  by (simp add: fdiv_def)

lemma valid_drained:
  "0 < max_factor m \<Longrightarrow>
   valid_map h (m\<lparr>values_list := [], buckets := replicate cnt Sentinel, heap := hp\<rparr>)"
  by (simp add: valid_map_def bucket_count_def runs_ok_Nil)

lemma assign_throws_infinity [simp]: "\<not> assign_throws m cnt \<infinity>"
  by (simp add: assign_throws_def)

lemma emplace_step:
  assumes v: "valid_map h m"
    and grow: "nat \<lfloor>of_nat (bucket_count m) * max_factor m\<rfloor> < size_of m + 1 \<Longrightarrow>
               rehash_ok h m (max 16 (2 * size_of m))
                 (reserve h m (max 16 (2 * size_of m)) \<infinity>)"
  shows "emplace_ok h m c"
proof -
  from v have pos: "0 < max_factor m" by (simp add: valid_map_def)
  define cap where "cap = (if nat \<lfloor>of_nat (bucket_count m) * max_factor m\<rfloor> < size_of m + 1
                 then reserve h m (max 16 (2 * size_of m)) \<infinity> else Inr m)"
  have "\<exists>m1. cap = Inr m1 \<and> valid_map h m1 \<and> entries m1 = entries m \<and>
          max_factor m1 = max_factor m \<and> buckets m1 \<noteq> []"
  proof (cases "nat \<lfloor>of_nat (bucket_count m) * max_factor m\<rfloor> < size_of m + 1")
    case True
    from grow[OF True] True show ?thesis by (auto simp: rehash_ok_def cap_def)
  next
    case False
    then have "0 < nat \<lfloor>of_nat (bucket_count m) * max_factor m\<rfloor>" by linarith
    then have "bucket_count m \<noteq> 0" by (intro notI) simp
    with False v show ?thesis by (auto simp: cap_def bucket_count_def)
  qed
  then obtain m1 where m1: "cap = Inr m1" "valid_map h m1" "entries m1 = entries m"
    "max_factor m1 = max_factor m" "buckets m1 \<noteq> []" by blast
  have ts: "to_size_t (of_nat (bucket_count m) * max_factor m)
      = Some (nat \<lfloor>of_nat (bucket_count m) * max_factor m\<rfloor>)"
    using pos by (intro to_size_t_nonneg) simp
  have e: "emplace h m c = (case c of None \<Rightarrow> Inl (Throw m1) | Some kv \<Rightarrow> place h m1 kv)"
    using m1(1) unfolding cap_def by (subst emplace.simps) (simp add: ts)
  have keys: "keys_of m1 = keys_of m" by (simp add: keys_of_entries m1)
  show ?thesis
  proof (cases c)
    case None
    with e m1 show ?thesis by (simp add: emplace_ok_def)
  next
    case (Some kv)
    obtain k x where kv: "kv = (k, x)" by (cases kv)
    from e Some have e': "emplace h m (Some kv) = place h m1 kv" by simp
    have "\<exists>m' b. emplace h m (Some kv) = Inr (m', key_iter (fst kv) (values_list m'), b) \<and>
                     valid_map h m' \<and> max_factor m' = max_factor m \<and> buckets m' \<noteq> [] \<and>
                     b = (fst kv \<notin> keys_of m) \<and>
                     entries m' = (if fst kv \<in> keys_of m then entries m
                                   else add_mset kv (entries m))"
    proof (cases "k \<in> keys_of m")
      case True
      then have "k \<in> fst ` snd ` set (values_list m1)" using keys by (simp add: keys_of_def)
      from place_present[OF m1(2) this, of x]
      have "emplace h m (Some kv) = Inr (m1, key_iter (fst kv) (values_list m1), False)"
        using e' kv by simp
      with True m1 kv show ?thesis by (intro exI[of _ m1] exI[of _ False]) simp
    next
      case False
      then have "k \<notin> fst ` snd ` set (values_list m1)" using keys by (simp add: keys_of_def)
      from place_absent[OF m1(2) m1(5) this, of x] obtain m' where m':
        "place h m1 (k, x) = Inr (m', Node (heap m1), True)" "valid_map h m'"
        "mset (map snd (values_list m')) = add_mset (k, x) (mset (map snd (values_list m1)))"
        "bucket_count m' = bucket_count m1" "max_factor m' = max_factor m1"
        "key_iter k (values_list m') = Node (heap m1)"
        by blast
      have "emplace h m (Some kv) = Inr (m', key_iter (fst kv) (values_list m'), True)"
        using e' kv m'(1,6) by simp
      moreover have "buckets m' \<noteq> []" using m'(4) m1(5) by (auto simp: bucket_count_def)
      moreover have "entries m' = add_mset kv (entries m)"
        using m'(3) m1(3) kv by (simp add: entries_def)
      ultimately show ?thesis using False m' m1 kv
        by (intro exI[of _ m'] exI[of _ True]) simp
    qed
    then show ?thesis unfolding emplace_ok_def Some by simp
  qed
qed

lemma reserve_step:
  assumes v: "valid_map h m"
    and r: "rehash_ok h m (nat \<lceil>of_nat n / max_factor m\<rceil>)
              (rehash h m (nat \<lceil>of_nat n / max_factor m\<rceil>) vmax)"
  shows "rehash_ok h m n (reserve h m n vmax)"
proof -
  from v have pos: "0 < max_factor m" by (simp add: valid_map_def)
  have "0 < n \<Longrightarrow> 0 < nat \<lceil>of_nat n / max_factor m\<rceil>"
    using pos by (simp add: zero_less_nat_eq)
  moreover have "to_size_t (of_int \<lceil>of_nat n / max_factor m\<rceil>)
      = Some (nat \<lceil>of_nat n / max_factor m\<rceil>)"
    using pos by (intro to_size_t_ceiling) simp
  ultimately show ?thesis using r pos
    by (subst reserve.simps) (auto simp: rehash_ok_def fdiv_pos)
qed

lemma rehash_step:
  assumes v: "valid_map h m"
    and fits: "\<not> assign_throws m (max n (nat \<lfloor>of_nat (size_of m) / max_factor m\<rfloor>)) vmax"
    and re: "\<And>cnt hp copy. cnt = max n (nat \<lfloor>of_nat (size_of m) / max_factor m\<rfloor>) \<Longrightarrow>
        cnt \<noteq> bucket_count m \<Longrightarrow>
        drain (values_list m) [] (heap m) = ([], copy, hp) \<Longrightarrow>
        reinsert_ok h (m\<lparr>values_list := [], buckets := replicate cnt Sentinel, heap := hp\<rparr>) copy"
  shows "rehash_ok h m n (rehash h m n vmax)"
proof -
  from v have pos: "0 < max_factor m" by (simp add: valid_map_def)
  define cnt where "cnt = max n (nat \<lfloor>of_nat (size_of m) / max_factor m\<rfloor>)"
  have ts: "to_size_t (of_nat (size_of m) / max_factor m)
      = Some (nat \<lfloor>of_nat (size_of m) / max_factor m\<rfloor>)"
    using pos by (intro to_size_t_nonneg) simp
  show ?thesis
  proof (cases "cnt = bucket_count m")
    case True
    then have "rehash h m n vmax = Inr m" using pos
      by (subst rehash.simps) (simp add: cnt_def fdiv_pos ts Let_def)
    moreover have "0 < n \<Longrightarrow> buckets m \<noteq> []" using True
      by (auto simp: cnt_def bucket_count_def)
    ultimately show ?thesis using v by (simp add: rehash_ok_def)
  next
    case False
    define copy where "copy = zip [heap m..<heap m + length (values_list m)] (map snd (values_list m))"
    define hp where "hp = heap m + length (values_list m)"
    have d: "drain (values_list m) [] (heap m) = ([], copy, hp)"
      by (simp add: drain_eq copy_def hp_def)
    let ?m0 = "m\<lparr>values_list := [], buckets := replicate cnt Sentinel, heap := hp\<rparr>"
    from re[OF cnt_def False d] obtain m' where m':
      "reinsert h ?m0 copy = Inr m'" "valid_map h m'"
      "entries m' = entries ?m0 + mset (map snd copy)"
      "max_factor m' = max_factor ?m0" "buckets ?m0 \<noteq> [] \<longrightarrow> buckets m' \<noteq> []"
      by (auto simp: reinsert_ok_def)
    have "rehash h m n vmax = reinsert h ?m0 copy"
      using pos False d fits
      by (subst rehash.simps) (simp add: cnt_def[symmetric] fdiv_pos ts Let_def)
    moreover have "map snd copy = map snd (values_list m)" by (simp add: copy_def)
    moreover have "0 < n \<Longrightarrow> 0 < cnt" by (simp add: cnt_def)
    ultimately show ?thesis using m' by (auto simp: rehash_ok_def entries_def)
  qed
qed

lemma reinsert_step:
  assumes e: "emplace_ok h m (Some item)"
    and rest: "\<And>m' r. emplace h m (Some item) = Inr (m', r) \<Longrightarrow>
        fst item \<notin> keys_of m \<Longrightarrow> reinsert_ok h m' copy"
    and fresh: "fst item \<notin> keys_of m"
  shows "reinsert_ok h m ((a, item) # copy)"
proof -
  from e fresh obtain m' b where m': "emplace h m (Some item) = Inr (m', key_iter (fst item) (values_list m'), b)"
    "valid_map h m'" "max_factor m' = max_factor m" "buckets m' \<noteq> []"
    "entries m' = add_mset item (entries m)"
    by (auto simp: emplace_ok_def)
  from rest[OF m'(1) fresh] obtain m'' where m'': "reinsert h m' copy = Inr m''" "valid_map h m''"
    "entries m'' = entries m' + mset (map snd copy)" "max_factor m'' = max_factor m'"
    "buckets m' \<noteq> [] \<longrightarrow> buckets m'' \<noteq> []"
    by (auto simp: reinsert_ok_def)
  with m' show ?thesis by (simp add: reinsert_ok_def)
qed

lemma operations_valid:
  fixes h :: "'k \<Rightarrow> nat" and m :: "('k, 'v) UnorderedMap"
  shows "valid_map h m \<longrightarrow> emplace_ok h m c"
    and "valid_map h m \<longrightarrow>
           \<not> assign_throws m (max (nat \<lceil>of_nat n / max_factor m\<rceil>)
                                  (nat \<lfloor>of_nat (size_of m) / max_factor m\<rfloor>)) vmax \<longrightarrow>
           rehash_ok h m n (reserve h m n vmax)"
    and "valid_map h m \<longrightarrow>
           \<not> assign_throws m (max n (nat \<lfloor>of_nat (size_of m) / max_factor m\<rfloor>)) vmax \<longrightarrow>
           rehash_ok h m n (rehash h m n vmax)"
    and "valid_map h m \<longrightarrow> distinct (map (fst \<circ> snd) copy) \<longrightarrow>
           fst ` snd ` set copy \<inter> keys_of m = {} \<longrightarrow> reinsert_ok h m copy"
proof (induct h m c and h m n vmax and h m n vmax and h m copy
    rule: emplace_reserve_rehash_reinsert.induct)
  case (1 h m c)
  show ?case
  proof
    assume v: "valid_map h m"
    then have pos: "0 < max_factor m" by (simp add: valid_map_def)
    have ts: "to_size_t (of_nat (bucket_count m) * max_factor m)
        = Some (nat \<lfloor>of_nat (bucket_count m) * max_factor m\<rfloor>)"
      using pos by (intro to_size_t_nonneg) simp
    show "emplace_ok h m c" using 1[OF ts] v by (intro emplace_step) auto
  qed
next
  case (2 h m n vmax)
  show ?case
  proof (intro impI)
    assume v: "valid_map h m"
      and fits: "\<not> assign_throws m (max (nat \<lceil>of_nat n / max_factor m\<rceil>)
                                  (nat \<lfloor>of_nat (size_of m) / max_factor m\<rfloor>)) vmax"
    from v have pos: "0 < max_factor m" by (simp add: valid_map_def)
    have ts: "to_size_t (of_int \<lceil>of_nat n / max_factor m\<rceil>)
        = Some (nat \<lceil>of_nat n / max_factor m\<rceil>)"
      using pos by (intro to_size_t_ceiling) simp
    show "rehash_ok h m n (reserve h m n vmax)"
      using 2[OF fdiv_pos[OF pos] ts] v fits by (intro reserve_step) auto
  qed
next
  case (3 h m n vmax)
  show ?case
  proof (intro impI)
    assume v: "valid_map h m"
      and fits: "\<not> assign_throws m (max n (nat \<lfloor>of_nat (size_of m) / max_factor m\<rfloor>)) vmax"
    from v have pos: "0 < max_factor m" by (simp add: valid_map_def)
    have ts: "to_size_t (of_nat (size_of m) / max_factor m)
        = Some (nat \<lfloor>of_nat (size_of m) / max_factor m\<rfloor>)"
      using pos by (intro to_size_t_nonneg) simp
    show "rehash_ok h m n (rehash h m n vmax)"
    proof (rule rehash_step[OF v fits])
      fix cnt hp copy
      assume c: "cnt = max n (nat \<lfloor>of_nat (size_of m) / max_factor m\<rfloor>)"
        "cnt \<noteq> bucket_count m" and d: "drain (values_list m) [] (heap m) = ([], copy, hp)"
      let ?m0 = "m\<lparr>values_list := [], buckets := replicate cnt Sentinel, heap := hp\<rparr>"
      from fits c(1) have nt: "\<not> assign_throws m cnt vmax" by simp
      have ih: "valid_map h ?m0 \<longrightarrow> distinct (map (fst \<circ> snd) copy) \<longrightarrow>
           fst ` snd ` set copy \<inter> keys_of ?m0 = {} \<longrightarrow> reinsert_ok h ?m0 copy"
        using 3[OF fdiv_pos[OF pos] ts c(1) c(2) d[symmetric] refl nt] .
      have "map snd copy = map snd (values_list m)" using d by (auto simp: drain_eq)
      then have "map (fst \<circ> snd) copy = map (fst \<circ> snd) (values_list m)"
        by (metis map_map)
      then have "distinct (map (fst \<circ> snd) copy)" using v by (simp add: valid_map_def)
      moreover have "valid_map h ?m0" using pos by (intro valid_drained) simp
      moreover have "keys_of ?m0 = {}" by (simp add: keys_of_def)
      ultimately show "reinsert_ok h ?m0 copy" using ih by simp
    qed
  qed
next
  case (4 h m)
  show ?case by (simp add: reinsert_ok_def)
next
  case (5 h m a item copy)
  show ?case
  proof (intro impI)
    assume v: "valid_map h m" and d: "distinct (map (fst \<circ> snd) ((a, item) # copy))"
      and f: "fst ` snd ` set ((a, item) # copy) \<inter> keys_of m = {}"
    from 5(1) v have e: "emplace_ok h m (Some item)" by simp
    from f have fresh: "fst item \<notin> keys_of m" by auto
    show "reinsert_ok h m ((a, item) # copy)"
    proof (rule reinsert_step[OF e _ fresh])
      fix m' r
      assume em: "emplace h m (Some item) = Inr (m', r)"
      obtain it b where r: "r = (it, b)" by (cases r)
      from e fresh em have v': "valid_map h m'" and en: "entries m' = add_mset item (entries m)"
        by (auto simp: emplace_ok_def)
      from en have "keys_of m' = insert (fst item) (keys_of m)" by (simp add: keys_of_entries)
      with d f have "fst ` snd ` set copy \<inter> keys_of m' = {}" by (auto simp: image_iff)
      moreover from d have "distinct (map (fst \<circ> snd) copy)" by simp
      ultimately show "reinsert_ok h m' copy" using 5(2)[OF em refl] v' by blast
    qed
  qed
qed

lemma first_run_tail:
  assumes "runs_ok P (pre @ x # post)" and "filter P pre = []" and "P x"
  shows "filter P post = takeWhile P post"
proof -
  from assms(2) have "\<forall>y\<in>set pre. \<not> P y" by (simp add: filter_empty_conv)
  then have "dropWhile (\<lambda>y. \<not> P y) (pre @ x # post) = x # post"
    using assms(3) by (simp add: dropWhile_append2)
  with assms show ?thesis by (simp add: runs_ok_def)
qed

lemma begin_it_takeWhile:
  "begin_it (takeWhile P post) =
     (case post of [] \<Rightarrow> Sentinel | z # r \<Rightarrow> if P z then Node (fst z) else Sentinel)"
  by (cases post) (auto split: prod.splits)

lemma begin_it_append: "xs \<noteq> [] \<Longrightarrow> begin_it (xs @ ys) = begin_it xs"
  by (cases xs) auto

lemma valid_erase:
  fixes m :: "('k, 'v) UnorderedMap"
  assumes v: "valid_map h m" and l: "values_list m = pre @ (a, (k, x)) # post"
  shows "\<exists>m'. erase h m (Node a) = Inr (m', begin_it post) \<and> valid_map h m' \<and>
           values_list m' = pre @ post \<and> bucket_count m' = bucket_count m \<and>
           max_factor m' = max_factor m \<and> heap m' = heap m"
proof -
  define n where "n = bucket_count m"
  define b where "b = h k mod n"
  let ?x = "(a, (k, x))"
  from v l have n0: "n \<noteq> 0" by (auto simp: valid_map_def n_def bucket_count_def)
  then have bn: "b < n" by (simp add: b_def)
  from v l have dist: "distinct (map fst (pre @ ?x # post))"
    and dk: "distinct (map (fst \<circ> snd) (pre @ ?x # post))"
    by (auto simp: valid_map_def)
  then have apre: "a \<notin> fst ` set pre" by auto
  have d1: "deref (values_list m) (Node a) = Some (k, x)"
    using l map_of_split[OF apre, of "(k, x)" post] by simp
  have gh: "get_hash h m k = Some b" using n0 by (simp add: get_hash_def n_def b_def)
  have nx: "next_iter (values_list m) (Node a) = Some (begin_it post)"
    using l apre by (simp add: next_iter_split)
  define res where "res = (if begin_it post \<noteq> Sentinel then
              (case deref (values_list m) (begin_it post) of
                 None \<Rightarrow> Inl UB
               | Some (k', v') \<Rightarrow>
                   (case find_mut h m k' of
                      None \<Rightarrow> Inl UB
                    | Some r \<Rightarrow> if r \<noteq> Sentinel then Inr r else Inl Abort))
            else Inr Sentinel :: ('k, 'v) UnorderedMap error + iter)"
  have res: "res = Inr (begin_it post)"
  proof (cases post)
    case Nil
    then show ?thesis by (simp add: res_def)
  next
    case (Cons z r)
    obtain a2 k2 x2 where z: "z = (a2, (k2, x2))" by (cases z) auto
    have zin: "(a2, (k2, x2)) \<in> set (values_list m)" using l Cons z by simp
    have "deref (values_list m) (Node a2) = Some (k2, x2)"
      using dist zin l by (intro deref_in) simp_all
    moreover have "find_mut h m k2 = Some (Node a2)"
      using v dk zin l by (simp add: find_mut_valid key_iter_unique)
    ultimately show ?thesis using Cons z by (simp add: res_def)
  qed
  define P :: "nat \<Rightarrow> addr \<times> 'k \<times> 'v \<Rightarrow> bool" where "P = in_bucket h n"
  have Px: "P b ?x" by (simp add: P_def in_bucket_def b_def)
  have Pother: "\<And>b'. b' \<noteq> b \<Longrightarrow> \<not> P b' ?x" by (auto simp: P_def in_bucket_def b_def)
  from v have old: "\<And>b'. b' < n \<Longrightarrow>
      buckets m ! b' = begin_it (filter (P b') (pre @ ?x # post)) \<and>
      runs_ok (P b') (pre @ ?x # post)"
    by (simp add: valid_map_def n_def l P_def)
  define newhead where "newhead =
     (case post of [] \<Rightarrow> Sentinel | z # r \<Rightarrow> if P b z then Node (fst z) else Sentinel)"
  define bs where "bs = (if Node a = buckets m ! b then (buckets m)[b := newhead] else buckets m)"
  have bsopt: "(if Node a = buckets m ! b then
              (if begin_it post \<noteq> Sentinel then
                 (case deref (values_list m) (begin_it post) of
                    None \<Rightarrow> None
                  | Some (k'', v'') \<Rightarrow>
                      Some ((buckets m)[b :=
                        (if h k'' mod bucket_count m = b then begin_it post else Sentinel)]))
               else Some ((buckets m)[b := Sentinel]))
            else Some (buckets m)) = Some bs"
  proof (cases post)
    case Nil
    then show ?thesis by (simp add: bs_def newhead_def)
  next
    case (Cons z r)
    obtain a2 k2 x2 where z: "z = (a2, (k2, x2))" by (cases z) auto
    have zin: "(a2, (k2, x2)) \<in> set (values_list m)" using l Cons z by simp
    have "deref (values_list m) (Node a2) = Some (k2, x2)"
      using dist zin l by (intro deref_in) simp_all
    then show ?thesis using Cons z
      by (simp add: bs_def newhead_def P_def in_bucket_def n_def)
  qed
  let ?m' = "m\<lparr>values_list := pre @ post, buckets := bs\<rparr>"
  have le: "List_erase (values_list m) (Node a) = Some (pre @ post)"
    using l apre by (simp add: List_erase_split)
  have er: "erase h m (Node a) = Inr (?m', begin_it post)"
    unfolding erase_def using d1 gh nx res[unfolded res_def] bsopt le
    by (simp del: deref.simps)
  have len: "length bs = length (buckets m)" by (simp add: bs_def)
  have heads: "\<forall>b' < n. bs ! b' = begin_it (filter (P b') (pre @ post)) \<and>
      runs_ok (P b') (pre @ post)"
  proof (intro allI impI conjI)
    fix b' assume b': "b' < n"
    from old[OF b'] show "runs_ok (P b') (pre @ post)" by (auto dest: runs_ok_remove)
    show "bs ! b' = begin_it (filter (P b') (pre @ post))"
    proof (cases "b' = b")
      case False
      then have "bs ! b' = buckets m ! b'" by (simp add: bs_def)
      with old[OF b'] Pother[OF False] show ?thesis by simp
    next
      case True
      show ?thesis
      proof (cases "Node a = buckets m ! b")
        case h: True
        with old[OF bn] have "begin_it (filter (P b) (pre @ ?x # post)) = Node a" by simp
        from head_is_first[OF dist this] have p0: "filter (P b) pre = []" by simp
        from old[OF bn] have "runs_ok (P b) (pre @ ?x # post)" by simp
        from first_run_tail[OF this p0 Px] have "filter (P b) post = takeWhile (P b) post" .
        with p0 have "begin_it (filter (P b) (pre @ post)) = newhead"
          by (simp add: begin_it_takeWhile newhead_def)
        moreover have "bs ! b = newhead" using h bn by (simp add: bs_def n_def bucket_count_def)
        ultimately show ?thesis using True by simp
      next
        case h: False
        have "filter (P b) pre \<noteq> []"
        proof
          assume "filter (P b) pre = []"
          with Px have "begin_it (filter (P b) (pre @ ?x # post)) = Node a" by simp
          with old[OF bn] h show False by simp
        qed
        then have "begin_it (filter (P b) (pre @ ?x # post)) = begin_it (filter (P b) (pre @ post))"
          by (simp add: begin_it_append)
        with old[OF bn] h True show ?thesis by (simp add: bs_def)
      qed
    qed
  qed
  have "valid_map h ?m'"
    using v heads dist dk l len n0
    by (auto simp: valid_map_def bucket_count_def n_def P_def)
  with er len show ?thesis by (auto simp: bucket_count_def)
qed

lemma valid_empty_map: "valid_map h empty_map"
  by (simp add: valid_map_def empty_map_def bucket_count_def)

lemma valid_contiguity:
  assumes v: "valid_map h m"
  shows "contiguity h m"
  unfolding contiguity_def
proof (intro allI impI)
  fix b assume b: "b < bucket_count m"
  let ?P = "in_bucket h (bucket_count m) b"
  from v b have hd: "buckets m ! b = begin_it (filter ?P (values_list m))"
    and ro: "runs_ok ?P (values_list m)" and dist: "distinct (map fst (values_list m))"
    by (auto simp: valid_map_def)
  show "(buckets m ! b \<noteq> Sentinel \<longrightarrow> run_at h m b \<noteq> []) \<and>
        filter ?P (values_list m) = run_at h m b"
  proof (cases "filter ?P (values_list m)")
    case Nil
    with hd show ?thesis by (simp add: run_at_def)
  next
    case (Cons x r)
    have "from_iter (Node (fst x)) (values_list m) = dropWhile (\<lambda>n. \<not> ?P n) (values_list m)"
      using dist Cons by (rule from_iter_first)
    moreover have "buckets m ! b = Node (fst x)" using hd Cons by (cases x) simp
    ultimately have "run_at h m b = filter ?P (values_list m)"
      using ro by (simp add: run_at_def runs_ok_def del: from_iter.simps)
    with Cons show ?thesis by simp
  qed
qed

lemma erase_Inr_node:
  assumes "erase h m it = Inr (m', r)"
  shows "\<exists>a. it = Node a \<and> a \<in> fst ` set (values_list m)"
proof (cases it)
  case Sentinel
  with assms show ?thesis by (simp add: erase_def)
next
  case (Node a)
  with assms have "map_of (values_list m) a \<noteq> None"
    by (auto simp: erase_def split: option.splits)
  then have "a \<in> fst ` set (values_list m)" by (simp add: map_of_eq_None_iff)
  with Node show ?thesis by simp
qed

lemma erase_valid:
  assumes v: "valid_map h m" and e: "erase h m it = Inr (m', r)"
  shows "valid_map h m'"
proof -
  from erase_Inr_node[OF e] obtain a where it: "it = Node a"
    and a: "a \<in> fst ` set (values_list m)" by blast
  from addr_split[OF a] obtain pre y post where l: "values_list m = pre @ (a, y) # post" by blast
  obtain k x where y: "y = (k, x)" by (cases y)
  from valid_erase[OF v l[unfolded y]] e it show ?thesis by auto
qed

lemma emplace_Some:
  assumes "valid_map h m"
  shows "\<exists>m' b. emplace h m (Some kv) = Inr (m', key_iter (fst kv) (values_list m'), b) \<and>
           valid_map h m' \<and> max_factor m' = max_factor m \<and> buckets m' \<noteq> [] \<and>
           b = (fst kv \<notin> keys_of m) \<and>
           entries m' = (if fst kv \<in> keys_of m then entries m else add_mset kv (entries m))"
  using operations_valid(1)[of h m "Some kv"] assms by (simp add: emplace_ok_def)

lemma emplace_None:
  assumes "valid_map h m"
  shows "\<exists>m1. emplace h m None = Inl (Throw m1) \<and> valid_map h m1 \<and>
           entries m1 = entries m \<and> max_factor m1 = max_factor m \<and> buckets m1 \<noteq> []"
  using operations_valid(1)[of h m None] assms by (simp add: emplace_ok_def)

lemma rehash_total:
  assumes "valid_map h m"
    and "\<not> assign_throws m (max n (nat \<lfloor>of_nat (size_of m) / max_factor m\<rfloor>)) vmax"
  shows "\<exists>m'. rehash h m n vmax = Inr m' \<and> valid_map h m' \<and> entries m' = entries m \<and>
           max_factor m' = max_factor m"
  using operations_valid(3)[of h m n vmax] assms by (auto simp: rehash_ok_def)

lemma reserve_total:
  assumes "valid_map h m"
    and "\<not> assign_throws m (max (nat \<lceil>of_nat n / max_factor m\<rceil>)
                               (nat \<lfloor>of_nat (size_of m) / max_factor m\<rfloor>)) vmax"
  shows "\<exists>m'. reserve h m n vmax = Inr m' \<and> valid_map h m' \<and> entries m' = entries m \<and>
           max_factor m' = max_factor m"
  using operations_valid(2)[of h m n vmax] assms by (auto simp: rehash_ok_def)

lemma rehash_throws:
  assumes v: "valid_map h m"
    and t: "assign_throws m (max n (nat \<lfloor>of_nat (size_of m) / max_factor m\<rfloor>)) vmax"
  shows "rehash h m n vmax
           = Inl (Throw (m\<lparr>values_list := [], heap := heap m + size_of m\<rparr>))"
proof -
  from v have pos: "0 < max_factor m" by (simp add: valid_map_def)
  have ts: "to_size_t (of_nat (size_of m) / max_factor m)
      = Some (nat \<lfloor>of_nat (size_of m) / max_factor m\<rfloor>)"
    using pos by (intro to_size_t_nonneg) simp
  from t have "max n (nat \<lfloor>of_nat (size_of m) / max_factor m\<rfloor>) \<noteq> bucket_count m"
    by (auto simp: assign_throws_def)
  moreover have "heap m + length (values_list m) = heap m + size_of m"
    by (simp add: size_of_def)
  ultimately show ?thesis using t pos
    by (subst rehash.simps) (simp add: fdiv_pos ts Let_def drain_eq)
qed

lemma emplace_valid:
  assumes "valid_map h m" and "emplace h m (Some kv) = Inr (m', r)"
  shows "valid_map h m'"
  using emplace_Some[OF assms(1), of kv] assms(2) by auto

lemma emplace_throw_valid:
  assumes "valid_map h m" and "emplace h m None = Inl (Throw m')"
  shows "valid_map h m'"
  using emplace_None[OF assms(1)] assms(2) by auto

lemma rehash_valid:
  assumes "valid_map h m" and "rehash h m n vmax = Inr m'"
  shows "valid_map h m'"
proof (cases "assign_throws m (max n (nat \<lfloor>of_nat (size_of m) / max_factor m\<rfloor>)) vmax")
  case True
  from rehash_throws[OF assms(1) True] assms(2) show ?thesis by simp
next
  case False
  from rehash_total[OF assms(1) False] assms(2) show ?thesis by auto
qed

lemma reachable_valid: "reachable h m \<Longrightarrow> valid_map h m"
proof (induction rule: reachable.induct)
  case start
  show ?case by (rule valid_empty_map)
next
  case (emplaced m kv m' r)
  then show ?case by (auto intro: emplace_valid)
next
  case (thrown m m')
  then show ?case by (auto intro: emplace_throw_valid)
next
  case (erased m it m' r')
  then show ?case by (auto intro: erase_valid)
next
  case (rehashed m n vmax m')
  then show ?case by (auto intro: rehash_valid)
qed

lemma found_iff:
  assumes v: "valid_map h m"
  shows "found h m k = Some e \<longleftrightarrow> e \<in># entries m \<and> fst e = k"
proof
  assume f: "found h m k = Some e"
  then have d: "deref (values_list m) (key_iter k (values_list m)) = Some e"
    using v by (simp add: found_def find_mut_valid)
  then obtain a where a: "key_iter k (values_list m) = Node a"
    by (cases "key_iter k (values_list m)") auto
  from key_iter_in[OF a] obtain x where x: "(a, (k, x)) \<in> set (values_list m)" by blast
  with v have "deref (values_list m) (Node a) = Some (k, x)"
    by (intro deref_in) (simp_all add: valid_map_def)
  with d a have "e = (k, x)" by simp
  with x show "e \<in># entries m \<and> fst e = k" by (force simp: entries_def)
next
  assume "e \<in># entries m \<and> fst e = k"
  then obtain a x where e: "e = (k, x)" and x: "(a, (k, x)) \<in> set (values_list m)"
    by (cases e) (auto simp: entries_def)
  with v have "key_iter k (values_list m) = Node a"
    by (intro key_iter_unique[of _ _ _ x]) (simp_all add: valid_map_def)
  moreover from x v have "deref (values_list m) (Node a) = Some (k, x)"
    by (intro deref_in) (simp_all add: valid_map_def)
  ultimately show "found h m k = Some e" using v e by (simp add: found_def find_mut_valid)
qed

lemma found_same:
  assumes "valid_map h m" and "valid_map h m'" and "entries m' = entries m"
  shows "found h m' k = found h m k"
proof -
  have *: "\<And>e. (found h m' k = Some e) = (found h m k = Some e)"
    using assms by (simp add: found_iff)
  show ?thesis
  proof (cases "found h m k")
    case None
    with * have "\<And>e. found h m' k \<noteq> Some e" by simp
    then have "found h m' k = None" by (cases "found h m' k") auto
    with None show ?thesis by simp
  next
    case (Some e)
    with * show ?thesis by simp
  qed
qed

lemma found_find:
  assumes v: "valid_map h m" and e: "(k, x) \<in># entries m"
  shows "\<exists>a. find_mut h m k = Some (Node a) \<and> key_iter k (values_list m) = Node a \<and>
           deref (values_list m) (Node a) = Some (k, x)"
proof -
  from e obtain a where x: "(a, (k, x)) \<in> set (values_list m)" by (auto simp: entries_def)
  with v have "key_iter k (values_list m) = Node a"
    by (intro key_iter_unique[of _ _ _ x]) (simp_all add: valid_map_def)
  moreover from x v have "deref (values_list m) (Node a) = Some (k, x)"
    by (intro deref_in) (simp_all add: valid_map_def)
  ultimately show ?thesis using v by (simp add: find_mut_valid)
qed

lemma move_loop_reinsert: "move_loop h m l = reinsert h m l"
  by (induction l arbitrary: m) (auto split: sum.splits)

lemma emplace_no_growth:
  assumes v: "valid_map h m"
    and cap: "size_of m + 1 \<le> nat \<lfloor>of_nat (bucket_count m) * max_factor m\<rfloor>"
    and fresh: "fst kv \<notin> keys_of m"
  shows "\<exists>m' r. emplace h m (Some kv) = Inr (m', r) \<and> valid_map h m' \<and>
           entries m' = add_mset kv (entries m) \<and> bucket_count m' = bucket_count m \<and>
           max_factor m' = max_factor m"
proof -
  obtain k x where kv: "kv = (k, x)" by (cases kv)
  from v have pos: "0 < max_factor m" by (simp add: valid_map_def)
  from cap have "0 < nat \<lfloor>of_nat (bucket_count m) * max_factor m\<rfloor>" by linarith
  then have "bucket_count m \<noteq> 0" by (intro notI) simp
  then have ne: "buckets m \<noteq> []" by (simp add: bucket_count_def)
  have "to_size_t (of_nat (bucket_count m) * max_factor m)
      = Some (nat \<lfloor>of_nat (bucket_count m) * max_factor m\<rfloor>)"
    using pos by (intro to_size_t_nonneg) simp
  then have e: "emplace h m (Some kv) = place h m kv"
    using cap by (subst emplace.simps) (simp add: not_le)
  from fresh kv have "k \<notin> fst ` snd ` set (values_list m)" by (simp add: keys_of_def)
  from place_absent[OF v ne this, of x] e kv show ?thesis
    by (auto simp: entries_def)
qed

lemma insert_range_no_growth:
  assumes "valid_map h m" and "distinct (map fst kvs)" and "fst ` set kvs \<inter> keys_of m = {}"
    and "size_of m + length kvs \<le> nat \<lfloor>of_nat (bucket_count m) * max_factor m\<rfloor>"
  shows "\<exists>m'. insert_range h m kvs = Inr m' \<and> valid_map h m' \<and>
           entries m' = entries m + mset kvs \<and> bucket_count m' = bucket_count m"
  using assms
proof (induction kvs arbitrary: m)
  case Nil
  then show ?case by simp
next
  case (Cons kv kvs)
  from Cons.prems have "fst kv \<notin> keys_of m"
    and "size_of m + 1 \<le> nat \<lfloor>of_nat (bucket_count m) * max_factor m\<rfloor>" by auto
  from emplace_no_growth[OF Cons.prems(1) this(2) this(1)] obtain m1 r where m1:
    "emplace h m (Some kv) = Inr (m1, r)" "valid_map h m1"
    "entries m1 = add_mset kv (entries m)" "bucket_count m1 = bucket_count m"
    "max_factor m1 = max_factor m" by blast
  have "keys_of m1 = insert (fst kv) (keys_of m)" using m1(3) by (simp add: keys_of_entries)
  with Cons.prems have "fst ` set kvs \<inter> keys_of m1 = {}" by auto
  moreover have "size_of m1 + length kvs
      \<le> nat \<lfloor>of_nat (bucket_count m1) * max_factor m1\<rfloor>"
    using Cons.prems(4) m1 by (simp add: size_of_entries)
  moreover have "distinct (map fst kvs)" using Cons.prems(2) by simp
  ultimately obtain m' where "insert_range h m1 kvs = Inr m'" "valid_map h m'"
    "entries m' = entries m1 + mset kvs" "bucket_count m' = bucket_count m1"
    using Cons.IH[OF m1(2)] by blast
  with m1 show ?case by (simp add: insert_kv_def)
qed

lemma initial_bucket_count: "nat \<lceil>(16::rat) / (3 / 4)\<rceil> = 22"
  by code_simp

lemma initial_capacity: "nat \<lfloor>of_nat 22 * (3 / 4 :: rat)\<rfloor> = 16"
  by code_simp

lemma first_emplace:
  "emplace h empty_map (Some kv) =
     Inr (\<lparr>max_factor = 3 / 4, values_list = [(0, kv)],
           buckets = (replicate 22 Sentinel)[h (fst kv) mod 22 := Node 0], heap = 1\<rparr>,
          Node 0, True)"
  using initial_bucket_count
  by (simp add: emplace.simps reserve.simps rehash.simps empty_map_def size_of_def
      bucket_count_def place_def find_mut_def get_hash_def Let_def to_size_t_def fdiv_def)

lemma example_map_reachable: "reachable std_hash example_map"
proof -
  have e1: "emplace std_hash empty_map (Some (1, 10)) = Inr (single_map, Node 0, True)"
    by code_simp
  have e2: "emplace std_hash single_map (Some (23, 20)) = Inr (example_map, Node 1, True)"
    by code_simp
  show ?thesis using reachable.emplaced[OF reachable.emplaced[OF reachable.start e1] e2] .
qed

lemma example_map_valid: "valid_map std_hash example_map"
  using example_map_reachable by (rule reachable_valid)

lemma example_map_entries: "entries example_map = {#(23, 20), (1, 10)#}"
  by (simp add: entries_def example_map_def)

lemma reserve_throws:
  assumes v: "valid_map h m"
    and t: "assign_throws m (max (nat \<lceil>of_nat n / max_factor m\<rceil>)
                              (nat \<lfloor>of_nat (size_of m) / max_factor m\<rfloor>)) vmax"
  shows "reserve h m n vmax
           = Inl (Throw (m\<lparr>values_list := [], heap := heap m + size_of m\<rparr>))"
proof -
  from v have pos: "0 < max_factor m" by (simp add: valid_map_def)
  have "to_size_t (of_int \<lceil>of_nat n / max_factor m\<rceil>)
      = Some (nat \<lceil>of_nat n / max_factor m\<rceil>)"
    using pos by (intro to_size_t_ceiling) simp
  then have "reserve h m n vmax = rehash h m (nat \<lceil>of_nat n / max_factor m\<rceil>) vmax"
    using pos by (subst reserve.simps) (simp add: fdiv_pos)
  with rehash_throws[OF v t] show ?thesis by simp
qed

lemma ceiling_quotient_ge:
  fixes f :: rat
  assumes "0 < f" and "f \<le> 1"
  shows "n \<le> nat \<lceil>of_nat n / f\<rceil>"
proof -
  have "of_nat n * f \<le> of_nat n * 1" using assms by (intro mult_left_mono) simp_all
  then have "of_nat n \<le> of_nat n / f" using assms by (simp add: pos_le_divide_eq)
  then have "of_int (int n) - 1 < of_nat n / f" by simp
  then have "int n \<le> \<lceil>of_nat n / f\<rceil>" by (simp only: le_ceiling_iff)
  then show ?thesis by linarith
qed

lemma example_map_clamp:
  "nat \<lfloor>of_nat (size_of example_map) / max_factor example_map\<rfloor> = 2"
  by code_simp

lemma example_map_reserve_64: "nat \<lceil>of_nat 64 / max_factor example_map\<rceil> = 86"
  by code_simp

lemma example_map_small_count:
  "\<not> assign_throws example_map
       (max 64 (nat \<lfloor>of_nat (size_of example_map) / max_factor example_map\<rfloor>))
       vector_max_size"
  unfolding assign_throws_def example_map_clamp vector_max_size_def by simp

lemma example_map_small_reserve:
  "\<not> assign_throws example_map
       (max (nat \<lceil>of_nat 64 / max_factor example_map\<rceil>)
            (nat \<lfloor>of_nat (size_of example_map) / max_factor example_map\<rfloor>))
       vector_max_size"
  unfolding assign_throws_def example_map_clamp example_map_reserve_64 vector_max_size_def
  by simp

lemma example_map_huge_count:
  "assign_throws example_map (max (2 ^ 62) c) vector_max_size"
  by (simp add: assign_throws_def example_map_def bucket_count_def vector_max_size_def
      less_max_iff_disj)

lemma example_map_huge_reserve:
  "assign_throws example_map
     (max (nat \<lceil>of_nat (2 ^ 62) / max_factor example_map\<rceil>) c) vector_max_size"
proof -
  have "2 ^ 62 \<le> nat \<lceil>of_nat (2 ^ 62) / max_factor example_map\<rceil>"
    by (rule ceiling_quotient_ge) (simp_all add: example_map_def)
  then have "(2 ^ 62 :: nat) \<le> max (nat \<lceil>of_nat (2 ^ 62) / max_factor example_map\<rceil>) c"
    by simp
  moreover have "bucket_count example_map < 2 ^ 62"
    by (simp add: example_map_def bucket_count_def)
  moreover have "vector_max_size < enat (2 ^ 62)"
    by (simp add: vector_max_size_def)
  ultimately show ?thesis
    unfolding assign_throws_def
    by (metis enat_ord_simps(1) le_less_trans less_le_trans order_less_le_trans)
qed

lemma example_drained_eq:
  "example_map\<lparr>values_list := [], heap := heap example_map + size_of example_map\<rparr>
     = example_drained"
  by (simp add: example_map_def example_drained_def size_of_def)

section \<open>Calls that return\<close>

text \<open>
  The maps that returning calls build keep the contiguity of the buckets: for every
  bucket the run of nodes that starts at the bucket's head holds only nodes of that
  bucket, and no node of the bucket lies outside the run. Each of \<open>emplace\<close>,
  \<open>erase\<close> and \<open>rehash\<close> that returns on such a map gives a map with the property
  again; \<open>emplace\<close> returns for every entry, \<open>erase\<close> for every iterator to a node
  of the map, and \<open>rehash\<close> for every count for which \<open>buckets_.assign\<close> does not
  throw.
\<close>

lemma reachable_contiguity:
  assumes "reachable h m"
  shows "contiguity h m \<and>
    (\<forall>kv m' r. emplace h m (Some kv) = Inr (m', r) \<longrightarrow> contiguity h m') \<and>
    (\<forall>it m' r. erase h m it = Inr (m', r) \<longrightarrow> contiguity h m') \<and>
    (\<forall>n vmax m'. rehash h m n vmax = Inr m' \<longrightarrow> contiguity h m') \<and>
    (\<forall>kv. \<exists>m' r. emplace h m (Some kv) = Inr (m', r)) \<and>
    (\<forall>n vmax.
       \<not> assign_throws m (max n (nat \<lfloor>of_nat (size_of m) / max_factor m\<rfloor>)) vmax \<longrightarrow>
       (\<exists>m'. rehash h m n vmax = Inr m')) \<and>
    (\<forall>a \<in> fst ` set (values_list m). \<exists>m' r. erase h m (Node a) = Inr (m', r))"
proof -
  from assms have v: "valid_map h m" by (rule reachable_valid)
  have "contiguity h m" using v by (rule valid_contiguity)
  moreover have "\<forall>kv m' r. emplace h m (Some kv) = Inr (m', r) \<longrightarrow> contiguity h m'"
    using v by (auto intro: valid_contiguity emplace_valid)
  moreover have "\<forall>it m' r. erase h m it = Inr (m', r) \<longrightarrow> contiguity h m'"
    using v by (auto intro: valid_contiguity erase_valid)
  moreover have "\<forall>n vmax m'. rehash h m n vmax = Inr m' \<longrightarrow> contiguity h m'"
    using v by (auto intro: valid_contiguity rehash_valid)
  moreover have "\<forall>kv. \<exists>m' r. emplace h m (Some kv) = Inr (m', r)"
    using emplace_Some[OF v] by blast
  moreover have "\<forall>n vmax.
       \<not> assign_throws m (max n (nat \<lfloor>of_nat (size_of m) / max_factor m\<rfloor>)) vmax \<longrightarrow>
       (\<exists>m'. rehash h m n vmax = Inr m')"
    using rehash_total[OF v] by blast
  moreover have "\<forall>a \<in> fst ` set (values_list m). \<exists>m' r. erase h m (Node a) = Inr (m', r)"
  proof
    fix a assume "a \<in> fst ` set (values_list m)"
    from addr_split[OF this] obtain pre y post where l: "values_list m = pre @ (a, y) # post"
      by blast
    obtain k x where y: "y = (k, x)" by (cases y)
    from valid_erase[OF v l[unfolded y]] show "\<exists>m' r. erase h m (Node a) = Inr (m', r)" by blast
  qed
  ultimately show ?thesis by blast
qed

lemma reachable_contiguity_example:
  "reachable std_hash example_map \<and> contiguity std_hash example_map \<and>
   (\<exists>m'. rehash std_hash example_map 64 vector_max_size = Inr m' \<and>
      contiguity std_hash m')"
proof -
  note inv = reachable_contiguity[OF example_map_reachable]
  note keeps = inv[THEN conjunct2, THEN conjunct2, THEN conjunct2, THEN conjunct1]
  note returns = inv[THEN conjunct2, THEN conjunct2, THEN conjunct2, THEN conjunct2,
      THEN conjunct2, THEN conjunct1]
  from inv have c: "contiguity std_hash example_map" by (rule conjunct1)
  from returns[rule_format, OF example_map_small_count] obtain m' where
    m': "rehash std_hash example_map 64 vector_max_size = Inr m'" ..
  from keeps[rule_format, OF m'] have "contiguity std_hash m'" .
  with m' have "\<exists>m'. rehash std_hash example_map 64 vector_max_size = Inr m' \<and>
      contiguity std_hash m'"
    by (intro exI[of _ m'] conjI)
  with example_map_reachable c show ?thesis by (intro conjI)
qed

text \<open>
  On a well-formed map, for every requested count for which \<open>buckets_.assign\<close> does
  not throw, \<open>rehash\<close> and \<open>reserve\<close> return, and the result has the same size, the
  same multiset of entries along a traversal, and for every key that \<open>find\<close> found
  before, \<open>find\<close> finds it again with the same entry.
\<close>

lemma rehash_keeps_content:
  assumes "valid_map h m"
  shows "(\<not> assign_throws m (max n (nat \<lfloor>of_nat (size_of m) / max_factor m\<rfloor>)) vmax \<longrightarrow>
          (\<exists>m'. rehash h m n vmax = Inr m' \<and> size_of m' = size_of m \<and>
             entries m' = entries m \<and>
             (\<forall>k e. found h m k = Some e \<longrightarrow> found h m' k = Some e))) \<and>
         (\<not> assign_throws m (max (nat \<lceil>of_nat n / max_factor m\<rceil>)
                                 (nat \<lfloor>of_nat (size_of m) / max_factor m\<rfloor>)) vmax \<longrightarrow>
          (\<exists>m'. reserve h m n vmax = Inr m' \<and> size_of m' = size_of m \<and>
             entries m' = entries m \<and>
             (\<forall>k e. found h m k = Some e \<longrightarrow> found h m' k = Some e)))"
proof (intro conjI impI)
  assume "\<not> assign_throws m (max n (nat \<lfloor>of_nat (size_of m) / max_factor m\<rfloor>)) vmax"
  from rehash_total[OF assms this] obtain m' where m':
    "rehash h m n vmax = Inr m'" "valid_map h m'" "entries m' = entries m" by blast
  have "\<And>k. found h m' k = found h m k" using assms m'(2,3) by (rule found_same)
  with m' show "\<exists>m'. rehash h m n vmax = Inr m' \<and> size_of m' = size_of m \<and>
      entries m' = entries m \<and> (\<forall>k e. found h m k = Some e \<longrightarrow> found h m' k = Some e)"
    by (auto simp: size_of_entries)
next
  assume "\<not> assign_throws m (max (nat \<lceil>of_nat n / max_factor m\<rceil>)
                                 (nat \<lfloor>of_nat (size_of m) / max_factor m\<rfloor>)) vmax"
  from reserve_total[OF assms this] obtain m' where m':
    "reserve h m n vmax = Inr m'" "valid_map h m'" "entries m' = entries m" by blast
  have "\<And>k. found h m' k = found h m k" using assms m'(2,3) by (rule found_same)
  with m' show "\<exists>m'. reserve h m n vmax = Inr m' \<and> size_of m' = size_of m \<and>
      entries m' = entries m \<and> (\<forall>k e. found h m k = Some e \<longrightarrow> found h m' k = Some e)"
    by (auto simp: size_of_entries)
qed

lemma rehash_keeps_content_example:
  "valid_map std_hash example_map \<and>
   \<not> assign_throws example_map
       (max 64 (nat \<lfloor>of_nat (size_of example_map) / max_factor example_map\<rfloor>))
       vector_max_size \<and>
   (\<exists>m'. rehash std_hash example_map 64 vector_max_size = Inr m' \<and>
      size_of m' = size_of example_map \<and> entries m' = entries example_map \<and>
      (\<forall>k e. found std_hash example_map k = Some e \<longrightarrow> found std_hash m' k = Some e)) \<and>
   \<not> assign_throws example_map
       (max (nat \<lceil>of_nat 64 / max_factor example_map\<rceil>)
            (nat \<lfloor>of_nat (size_of example_map) / max_factor example_map\<rfloor>))
       vector_max_size \<and>
   (\<exists>m'. reserve std_hash example_map 64 vector_max_size = Inr m' \<and>
      size_of m' = size_of example_map \<and> entries m' = entries example_map \<and>
      (\<forall>k e. found std_hash example_map k = Some e \<longrightarrow> found std_hash m' k = Some e))"
proof -
  note keep = rehash_keeps_content[OF example_map_valid, of 64 vector_max_size]
  from keep[THEN conjunct1] example_map_small_count have
    "\<exists>m'. rehash std_hash example_map 64 vector_max_size = Inr m' \<and>
      size_of m' = size_of example_map \<and> entries m' = entries example_map \<and>
      (\<forall>k e. found std_hash example_map k = Some e \<longrightarrow> found std_hash m' k = Some e)"
    by (rule mp)
  moreover from keep[THEN conjunct2] example_map_small_reserve have
    "\<exists>m'. reserve std_hash example_map 64 vector_max_size = Inr m' \<and>
      size_of m' = size_of example_map \<and> entries m' = entries example_map \<and>
      (\<forall>k e. found std_hash example_map k = Some e \<longrightarrow> found std_hash m' k = Some e)"
    by (rule mp)
  ultimately show ?thesis
    using example_map_valid example_map_small_count example_map_small_reserve by (intro conjI)
qed

section \<open>The contiguity invariant\<close>

text \<open>
  C1. In every map that a sequence of insert/emplace, erase and rehash reaches, the
  nodes of every bucket should form the run that starts at the bucket's head, and each of
  the three operations should preserve this. The calls that return do
  (\<open>reachable_contiguity\<close>). A \<open>rehash\<close> whose bucket vector cannot be had does not:
  the map that holds the keys 1 and 23, both in bucket 1 of 22, is reachable and has the
  property; \<open>rehash(2^62)\<close> on it moves the two entries to the local list, then
  \<open>buckets_.assign\<close> throws. The exception leaves a map without nodes in which slot 1
  still holds the address of the node that was its head: there is no run at that head.
\<close>

theorem rehash_failure_breaks_contiguity:
  "reachable std_hash example_map \<and> contiguity std_hash example_map
   \<and> rehash std_hash example_map (2 ^ 62) vector_max_size = Inl (Throw example_drained)
   \<and> buckets example_drained ! 1 = Node 1
   \<and> run_at std_hash example_drained 1 = []
   \<and> \<not> contiguity std_hash example_drained"
proof -
  have "contiguity std_hash example_map"
    using example_map_valid by (rule valid_contiguity)
  moreover have "rehash std_hash example_map (2 ^ 62) vector_max_size
      = Inl (Throw example_drained)"
    using rehash_throws[OF example_map_valid example_map_huge_count]
    by (simp only: example_drained_eq)
  moreover have "buckets example_drained ! 1 = Node 1"
    by (simp add: example_drained_def)
  moreover have "run_at std_hash example_drained 1 = []"
    by (simp add: example_drained_def run_at_def)
  moreover have "\<not> contiguity std_hash example_drained"
    by code_simp
  ultimately show ?thesis using example_map_reachable by simp
qed

theorem rehash_failure_breaks_contiguity_witness:
  "rehash std_hash example_map (2 ^ 62) vector_max_size = Inl (Throw example_drained)
   \<and> \<not> contiguity std_hash example_drained"
  using rehash_failure_breaks_contiguity by simp

section \<open>The growth scenario\<close>

text \<open>
  C2, as the specification states it: inserting the keys 1 to 13 into a default-constructed
  map ends with 32 buckets. It does not: the first insertion calls \<open>reserve(16)\<close>, which
  is \<open>rehash(ceil(16 / 0.75))\<close> and gives 22 buckets, and no later insertion exceeds the
  threshold \<open>22 * 0.75\<close>, truncated to 16.
\<close>

theorem growth_scenario_counterexample:
  "insert_range std_hash empty_map
      [(1, 10), (2, 20), (3, 30), (4, 40), (5, 50), (6, 60), (7, 70), (8, 80), (9, 90),
       (10, 100), (11, 110), (12, 120), (13, 130)]
     = Inr thirteen_map
   \<and> bucket_count thirteen_map = 22 \<and> bucket_count thirteen_map \<noteq> 32"
  by code_simp

text \<open>
  C2, amended: for every hash function and whatever the values are, inserting the keys 1
  to 13 in this order into a default-constructed map returns a map with 22 buckets and
  size 13, in which \<open>find(7)\<close> returns an iterator to the entry of key 7 and \<open>find(99)\<close>
  returns the end iterator.
\<close>

theorem growth_scenario:
  "\<exists>m. insert_range h empty_map (map (\<lambda>k. (k, f k)) [1..<14]) = Inr m \<and>
       bucket_count m = 22 \<and> size_of m = 13 \<and>
       (\<exists>a. find_mut h m 7 = Some (Node a) \<and>
            deref (values_list m) (Node a) = Some (7, f 7)) \<and>
       find_mut h m 99 = Some Sentinel"
proof -
  let ?m1 = "\<lparr>max_factor = 3 / 4, values_list = [(0, (1::nat, f 1))],
           buckets = (replicate 22 Sentinel)[h 1 mod 22 := Node 0], heap = 1\<rparr>"
  let ?rest = "map (\<lambda>k. (k, f k)) [2..<14]"
  have e1: "emplace h empty_map (Some (1, f 1)) = Inr (?m1, Node 0, True)"
    using first_emplace[of h "(1, f 1)"] by simp
  have v1: "valid_map h ?m1" using valid_empty_map e1 by (rule emplace_valid)
  have "[1..<14] = 1 # [2..<14]" by code_simp
  then have split: "map (\<lambda>k. (k, f k)) [1..<14] = (1, f 1) # ?rest" by simp
  have fst_rest: "map fst ?rest = [2..<14]" by (simp add: comp_def)
  have "distinct (map fst ?rest)" unfolding fst_rest by simp
  moreover have "fst ` set ?rest \<inter> keys_of ?m1 = {}"
    by (auto simp: keys_of_def)
  moreover have "size_of ?m1 + length ?rest
      \<le> nat \<lfloor>of_nat (bucket_count ?m1) * max_factor ?m1\<rfloor>"
  proof -
    have "size_of ?m1 + length ?rest = 13" by (simp add: size_of_def)
    moreover have "nat \<lfloor>of_nat (bucket_count ?m1) * max_factor ?m1\<rfloor> = 16"
      using initial_capacity by (simp add: bucket_count_def)
    ultimately show ?thesis by simp
  qed
  ultimately obtain m where m: "insert_range h ?m1 ?rest = Inr m" "valid_map h m"
    "entries m = entries ?m1 + mset ?rest" "bucket_count m = bucket_count ?m1"
    using insert_range_no_growth[OF v1] by blast
  have ins: "insert_range h empty_map (map (\<lambda>k. (k, f k)) [1..<14]) = Inr m"
    unfolding split using e1 m(1) by (simp add: insert_kv_def)
  have bc: "bucket_count m = 22" using m(4) by (simp add: bucket_count_def)
  have sz: "size_of m = 13" using m(3) by (simp add: size_of_entries entries_def)
  have en: "entries m = mset (map (\<lambda>k. (k, f k)) [1..<14])"
    using m(3) unfolding split by (simp add: entries_def)
  have "(7, f 7) \<in># entries m" unfolding en by (simp add: image_iff)
  from found_find[OF m(2) this] have hit: "\<exists>a. find_mut h m 7 = Some (Node a) \<and>
      deref (values_list m) (Node a) = Some (7, f 7)" by blast
  have "keys_of m = {1..<14}" unfolding keys_of_entries en by (simp add: image_image)
  then have "99 \<notin> fst ` snd ` set (values_list m)" by (simp add: keys_of_def)
  then have miss: "find_mut h m 99 = Some Sentinel"
    using m(2) by (simp add: find_mut_valid key_iter_Sentinel)
  from ins bc sz hit miss show ?thesis by blast
qed

section \<open>Rehashing keeps the content\<close>

text \<open>
  C3. \<open>reserve\<close> with a target larger than the bucket count should leave the size,
  the entries and every successful lookup as they were. The calls that return do
  (\<open>rehash_keeps_content\<close>). For a target that the bucket vector cannot be given the
  entries are lost: on the map that holds the keys 1 and 23, \<open>reserve(2^62)\<close> asks
  \<open>rehash\<close> for \<open>ceil(2^62 / 0.75)\<close> buckets; the two entries are moved to the local
  list, \<open>buckets_.assign\<close> throws, and the exception leaves a map of size 0 in which
  key 1, found before, is not found.
\<close>

theorem reserve_failure_loses_entries:
  "valid_map std_hash example_map \<and> bucket_count example_map < 2 ^ 62
   \<and> size_of example_map = 2 \<and> found std_hash example_map 1 = Some (1, 10)
   \<and> reserve std_hash example_map (2 ^ 62) vector_max_size = Inl (Throw example_drained)
   \<and> size_of example_drained = 0 \<and> entries example_drained = {#}
   \<and> found std_hash example_drained 1 = None"
proof -
  have "bucket_count example_map < 2 ^ 62"
    by (simp add: example_map_def bucket_count_def)
  moreover have "size_of example_map = 2" by (simp add: example_map_def size_of_def)
  moreover have "found std_hash example_map 1 = Some (1, 10)" by code_simp
  moreover have "reserve std_hash example_map (2 ^ 62) vector_max_size
      = Inl (Throw example_drained)"
    using reserve_throws[OF example_map_valid example_map_huge_reserve]
    by (simp only: example_drained_eq)
  moreover have "size_of example_drained = 0" by (simp add: example_drained_def size_of_def)
  moreover have "entries example_drained = {#}" by (simp add: example_drained_def entries_def)
  moreover have "found std_hash example_drained 1 = None"
    by (simp add: found_def find_mut_def example_drained_def)
  ultimately show ?thesis using example_map_valid by simp
qed

theorem reserve_failure_loses_entries_witness:
  "reserve std_hash example_map (2 ^ 62) vector_max_size = Inl (Throw example_drained)
   \<and> size_of example_map = 2 \<and> size_of example_drained = 0"
  using reserve_failure_loses_entries by simp

section \<open>Lookup\<close>

text \<open>
  C4. \<open>find\<close> should never signal an error and should return the end iterator exactly
  on a miss, for both overloads and also on a default-constructed map. The const overload
  cannot be instantiated, so there is no const lookup at all. The non-const overload does
  what the claim says: on every well-formed map it returns; the result is the end
  iterator exactly when the key is absent, and otherwise an iterator to the entry of the
  key; an empty head for the key's bucket gives the end iterator; and the
  default-constructed map, which has no bucket, gives the end iterator.
\<close>

theorem find_returns_entry_or_end:
  assumes v: "valid_map h m"
  shows "(\<exists>it. find_mut h m k = Some it \<and>
            (it = Sentinel \<longleftrightarrow> k \<notin> keys_of m) \<and>
            (k \<in> keys_of m \<longrightarrow>
               (\<exists>x. deref (values_list m) it = Some (k, x) \<and> (k, x) \<in># entries m)) \<and>
            (buckets m \<noteq> [] \<longrightarrow> buckets m ! (h k mod bucket_count m) = Sentinel \<longrightarrow>
               it = Sentinel)) \<and>
         find_mut h (empty_map :: ('k, 'v) UnorderedMap) k = Some Sentinel \<and>
         bucket_count (empty_map :: ('k, 'v) UnorderedMap) = 0"
proof (intro conjI)
  let ?it = "key_iter k (values_list m)"
  have f: "find_mut h m k = Some ?it" using v by (rule find_mut_valid)
  have miss: "?it = Sentinel \<longleftrightarrow> k \<notin> keys_of m"
    by (simp add: key_iter_Sentinel keys_of_def)
  have hit: "k \<in> keys_of m \<longrightarrow>
      (\<exists>x. deref (values_list m) ?it = Some (k, x) \<and> (k, x) \<in># entries m)"
  proof
    assume "k \<in> keys_of m"
    then obtain x where x: "(k, x) \<in># entries m" by (auto simp: keys_of_entries)
    from found_find[OF v x] f x
    show "\<exists>x. deref (values_list m) ?it = Some (k, x) \<and> (k, x) \<in># entries m" by auto
  qed
  have head: "buckets m \<noteq> [] \<longrightarrow> buckets m ! (h k mod bucket_count m) = Sentinel \<longrightarrow>
      ?it = Sentinel"
  proof (intro impI)
    assume "buckets m \<noteq> []" and "buckets m ! (h k mod bucket_count m) = Sentinel"
    then have "find_mut h m k = Some Sentinel"
      by (simp add: find_mut_def get_hash_def bucket_count_def)
    with f show "?it = Sentinel" by simp
  qed
  from f miss hit head
  show "\<exists>it. find_mut h m k = Some it \<and>
            (it = Sentinel \<longleftrightarrow> k \<notin> keys_of m) \<and>
            (k \<in> keys_of m \<longrightarrow>
               (\<exists>x. deref (values_list m) it = Some (k, x) \<and> (k, x) \<in># entries m)) \<and>
            (buckets m \<noteq> [] \<longrightarrow> buckets m ! (h k mod bucket_count m) = Sentinel \<longrightarrow>
               it = Sentinel)"
    by blast
next
  show "find_mut h (empty_map :: ('k, 'v) UnorderedMap) k = Some Sentinel"
    by (simp add: find_mut_def empty_map_def)
next
  show "bucket_count (empty_map :: ('k, 'v) UnorderedMap) = 0"
    by (simp add: bucket_count_def empty_map_def)
qed

theorem find_returns_entry_or_end_witness:
  "valid_map std_hash example_map \<and> 23 \<in> keys_of example_map \<and>
   find_mut std_hash example_map 23 = Some (Node 1) \<and>
   deref (values_list example_map) (Node 1) = Some (23, 20) \<and>
   (23, 20) \<in># entries example_map"
proof -
  have k: "23 \<in> keys_of example_map" by (simp add: keys_of_def example_map_def)
  from find_returns_entry_or_end[OF example_map_valid, of 23, THEN conjunct1]
  obtain it where it:
    "find_mut std_hash example_map 23 = Some it"
    "23 \<in> keys_of example_map \<longrightarrow>
       (\<exists>x. deref (values_list example_map) it = Some (23, x) \<and>
            (23, x) \<in># entries example_map)"
    by (elim exE conjE)
  from it(2) k obtain x where x: "deref (values_list example_map) it = Some (23, x)"
    "(23, x) \<in># entries example_map" by blast
  from x(2) have "x = 20" by (simp add: example_map_entries)
  moreover from x(1) have "it = Node 1"
    by (cases it) (auto simp: example_map_def split: if_splits)
  ultimately show ?thesis using it(1) x k example_map_valid by simp
qed

section \<open>Duplicate keys\<close>



section \<open>The clamp of rehash\<close>

text \<open>
  C6. \<open>rehash(n)\<close> should raise \<open>n\<close> to at least \<open>ceil(size / max_load_factor)\<close> and
  end with that many buckets. The source raises it to \<open>size / max_load_factor\<close> cast to
  \<open>size_t\<close>, which truncates. On the map with the single key 1 and 22 buckets,
  \<open>rehash(0)\<close> should end with \<open>ceil(1 / 0.75) = 2\<close> buckets; the source takes 1 bucket,
  and putting the entry back finds \<open>1 > 1 * 0.75\<close> truncated, so that \<open>emplace\<close> grows
  the table again: the call ends with 22 buckets.
\<close>

theorem rehash_clamp_truncates:
  "emplace std_hash empty_map (Some (1, 10)) = Inr (single_map, Node 0, True)
   \<and> nat \<lceil>of_nat (size_of single_map) / max_factor single_map\<rceil> = 2
   \<and> nat \<lfloor>of_nat (size_of single_map) / max_factor single_map\<rfloor> = 1
   \<and> bucket_count single_map = 22
   \<and> rehash std_hash single_map 0 vmax
       = Inr \<lparr>max_factor = 3 / 4, values_list = [(2, (1, 10))],
              buckets = (replicate 22 Sentinel)[1 := Node 2], heap = 3\<rparr>"
  by code_simp

section \<open>The index operator\<close>




section \<open>A constructor that throws\<close>




section \<open>List equality\<close>

text \<open>
  C9. Two containers should compare equal exactly when they have the same size and the
  pairwise traversal finds equal entries. \<open>List::operator==\<close> advances only its first
  iterator, two nodes at a time: on the lists \<open>[1, 2]\<close> and \<open>[1, 3]\<close>, which have the
  same size and differ at their second position, it compares the first items, steps to
  the sentinel and answers \<open>true\<close>.
\<close>

theorem List_eq_ignores_second_position:
  "List_eq [(0, 1::nat), (1, 2)] [(2, 1), (3, 3)] = Some True
   \<and> \<not> pairwise_equal [(0, 1::nat), (1, 2)] [(2, 1), (3, 3)]"
  by (simp add: List_eq_def pairwise_equal_def eq_loop.simps)

section \<open>Move construction\<close>

text \<open>
  C10. Move construction from a well-formed map returns a new map with the same size and
  entries, in which every lookup gives what it gave in the source, and leaves the source
  with size 0 and bucket count 0.
\<close>

theorem move_construct_drains_source:
  assumes v: "valid_map h m"
  shows "\<exists>new src'. move_construct h m = Inr (new, src') \<and>
           size_of new = size_of m \<and> entries new = entries m \<and>
           (\<forall>k. found h new k = found h m k) \<and>
           size_of src' = 0 \<and> bucket_count src' = 0"
proof -
  let ?m0 = "empty_map\<lparr>buckets := replicate (bucket_count m) Sentinel, heap := heap m\<rparr>
      :: ('a, 'b) UnorderedMap"
  have v0: "valid_map h ?m0"
    by (simp add: valid_map_def empty_map_def bucket_count_def runs_ok_Nil)
  have "distinct (map (fst \<circ> snd) (values_list m))" using v by (simp add: valid_map_def)
  moreover have "fst ` snd ` set (values_list m) \<inter> keys_of ?m0 = {}"
    by (simp add: keys_of_def empty_map_def)
  ultimately have "reinsert_ok h ?m0 (values_list m)"
    using operations_valid(4)[of h ?m0 "values_list m"] v0 by blast
  then obtain new where new: "reinsert h ?m0 (values_list m) = Inr new" "valid_map h new"
    "entries new = entries ?m0 + entries m"
    by (auto simp: reinsert_ok_def entries_def)
  have "entries ?m0 = {#}" by (simp add: entries_def empty_map_def)
  with new have en: "entries new = entries m" by simp
  have "move_construct h m
      = Inr (new, m\<lparr>values_list := [], buckets := [], heap := heap new\<rparr>)"
    using new(1) by (simp add: move_construct_def move_loop_reinsert)
  moreover have "\<forall>k. found h new k = found h m k"
    using found_same[OF v new(2) en] by simp
  moreover have "size_of new = size_of m" using en by (simp add: size_of_entries)
  ultimately show ?thesis using en by (simp add: size_of_def bucket_count_def)
qed

theorem move_construct_drains_source_witness:
  "valid_map std_hash example_map \<and>
   (\<exists>new src'. move_construct std_hash example_map = Inr (new, src') \<and>
      size_of new = size_of example_map \<and> entries new = entries example_map \<and>
      (\<forall>k. found std_hash new k = found std_hash example_map k) \<and>
      size_of src' = 0 \<and> bucket_count src' = 0)"
  using move_construct_drains_source[OF example_map_valid] example_map_valid by blast

end
